theory Spec2Isabelle
  imports Complex_Main
begin

section \<open>The coil pack model of \<open>coil_pack_app.py\<close>\<close>

text \<open>
  The embedding covers \<open>CoilInputs\<close>, \<open>CoilOutputs\<close> and \<open>CoilPackModel.compute\<close>.
  Python's \<open>int\<close> is \<^typ>\<open>int\<close>. Python's \<open>float\<close> is IEEE 754 binary64: a finite
  value, an infinity or NaN, every operation rounding its exact result to the nearest
  representable value, ties to even. The two zeros are one value \<open>Fin 0\<close>: \<open>compute\<close>
  only adds, subtracts, multiplies, divides and compares, and Python raises for a
  division by either zero, so the sign of a zero never reaches a result.
\<close>

subsection \<open>Binary64\<close>

datatype pyfloat = Fin real | PInf | NInf | NaN

datatype py_error = ZeroDivisionError | OverflowError | ValueError

text \<open>Rounding to the nearest integer, ties to the even one.\<close>

definition round_even :: "real \<Rightarrow> int" where
  "round_even y =
     (let f = \<lfloor>y\<rfloor>; d = y - of_int f
      in if d < 1 / 2 then f else if 1 / 2 < d then f + 1
         else if even f then f else f + 1)"

text \<open>
  The exponent of \<open>x\<close>, not below that of the smallest normal number, and the spacing
  of the representable values at that exponent (53 significant bits).
\<close>

definition b64_exp :: "real \<Rightarrow> int" where
  "b64_exp x = max (- 1022) \<lfloor>log 2 \<bar>x\<bar>\<rfloor>"

definition b64_ulp :: "real \<Rightarrow> real" where
  "b64_ulp x = 2 powi (b64_exp x - 52)"

definition b64_round :: "real \<Rightarrow> real" where
  "b64_round x = of_int (round_even (x / b64_ulp x)) * b64_ulp x"

text \<open>A rounded result of magnitude \<open>2 ^ 1024\<close> or more overflows to an infinity.\<close>

definition b64_huge :: real where
  "b64_huge = 2 ^ 1024"

definition fl :: "real \<Rightarrow> pyfloat" where
  "fl x =
     (let r = b64_round x
      in if b64_huge \<le> r then PInf else if r \<le> - b64_huge then NInf else Fin r)"

fun fneg :: "pyfloat \<Rightarrow> pyfloat" where
  "fneg (Fin a) = Fin (- a)"
| "fneg PInf = NInf"
| "fneg NInf = PInf"
| "fneg NaN = NaN"

fun fadd :: "pyfloat \<Rightarrow> pyfloat \<Rightarrow> pyfloat" where
  "fadd (Fin a) (Fin b) = fl (a + b)"
| "fadd (Fin a) PInf = PInf"
| "fadd (Fin a) NInf = NInf"
| "fadd PInf (Fin b) = PInf"
| "fadd PInf PInf = PInf"
| "fadd NInf (Fin b) = NInf"
| "fadd NInf NInf = NInf"
| "fadd PInf NInf = NaN"
| "fadd NInf PInf = NaN"
| "fadd NaN y = NaN"
| "fadd x NaN = NaN"

definition fsub :: "pyfloat \<Rightarrow> pyfloat \<Rightarrow> pyfloat" where
  "fsub x y = fadd x (fneg y)"

text \<open>The product of an infinity and a finite value takes the sign of the product.\<close>

definition inf_times :: "bool \<Rightarrow> real \<Rightarrow> pyfloat" where
  "inf_times positive a =
     (if a = 0 then NaN else if (0 < a) = positive then PInf else NInf)"

fun fmul :: "pyfloat \<Rightarrow> pyfloat \<Rightarrow> pyfloat" where
  "fmul (Fin a) (Fin b) = fl (a * b)"
| "fmul (Fin a) PInf = inf_times True a"
| "fmul (Fin a) NInf = inf_times False a"
| "fmul PInf (Fin b) = inf_times True b"
| "fmul NInf (Fin b) = inf_times False b"
| "fmul PInf PInf = PInf"
| "fmul NInf NInf = PInf"
| "fmul PInf NInf = NInf"
| "fmul NInf PInf = NInf"
| "fmul NaN y = NaN"
| "fmul x NaN = NaN"

text \<open>Division by a value that is not zero.\<close>

fun fdiv :: "pyfloat \<Rightarrow> pyfloat \<Rightarrow> pyfloat" where
  "fdiv (Fin a) (Fin b) = fl (a / b)"
| "fdiv (Fin a) PInf = Fin 0"
| "fdiv (Fin a) NInf = Fin 0"
| "fdiv PInf (Fin b) = (if 0 \<le> b then PInf else NInf)"
| "fdiv NInf (Fin b) = (if 0 \<le> b then NInf else PInf)"
| "fdiv PInf PInf = NaN"
| "fdiv PInf NInf = NaN"
| "fdiv NInf PInf = NaN"
| "fdiv NInf NInf = NaN"
| "fdiv NaN y = NaN"
| "fdiv x NaN = NaN"

text \<open>The comparisons \<open><=\<close> and \<open><\<close>; every comparison with NaN is false.\<close>

fun le_f :: "pyfloat \<Rightarrow> pyfloat \<Rightarrow> bool" where
  "le_f (Fin a) (Fin b) \<longleftrightarrow> a \<le> b"
| "le_f (Fin a) PInf \<longleftrightarrow> True"
| "le_f (Fin a) NInf \<longleftrightarrow> False"
| "le_f PInf (Fin b) \<longleftrightarrow> False"
| "le_f PInf PInf \<longleftrightarrow> True"
| "le_f PInf NInf \<longleftrightarrow> False"
| "le_f NInf (Fin b) \<longleftrightarrow> True"
| "le_f NInf PInf \<longleftrightarrow> True"
| "le_f NInf NInf \<longleftrightarrow> True"
| "le_f NaN y \<longleftrightarrow> False"
| "le_f x NaN \<longleftrightarrow> False"

definition lt_f :: "pyfloat \<Rightarrow> pyfloat \<Rightarrow> bool" where
  "lt_f x y \<longleftrightarrow> le_f x y \<and> \<not> le_f y x"

subsection \<open>Python primitives\<close>

text \<open>\<open>range(n)\<close>: the integers \<open>0, \<dots>, n - 1\<close>, empty when \<open>n \<le> 0\<close>.\<close>

definition py_range :: "int \<Rightarrow> int list" where
  "py_range n = map int [0..<nat n]"

text \<open>
  \<open>float(n)\<close>, as applied to the \<open>int\<close> operand of a mixed operation: correctly
  rounded, \<open>OverflowError\<close> when out of range.
\<close>

definition int_to_float :: "int \<Rightarrow> py_error + pyfloat" where
  "int_to_float n =
     (case fl (of_int n) of Fin r \<Rightarrow> Inr (Fin r) | _ \<Rightarrow> Inl OverflowError)"

text \<open>\<open>n * x\<close> for an \<open>int\<close> \<open>n\<close> and a \<open>float\<close> \<open>x\<close>.\<close>

definition py_int_mul :: "int \<Rightarrow> pyfloat \<Rightarrow> py_error + pyfloat" where
  "py_int_mul n x =
     (case int_to_float n of Inl e \<Rightarrow> Inl e | Inr f \<Rightarrow> Inr (fmul f x))"

text \<open>
  \<open>a / b\<close> for two \<open>int\<close>s: the correctly rounded quotient, \<open>ZeroDivisionError\<close> for a
  zero divisor, \<open>OverflowError\<close> when the quotient is out of range.
\<close>

definition py_int_truediv :: "int \<Rightarrow> int \<Rightarrow> py_error + pyfloat" where
  "py_int_truediv a b =
     (if b = 0 then Inl ZeroDivisionError
      else case fl (of_int a / of_int b) of
             Fin r \<Rightarrow> Inr (Fin r)
           | _ \<Rightarrow> Inl OverflowError)"

text \<open>\<open>x / y\<close> for two \<open>float\<close>s.\<close>

definition py_float_truediv :: "pyfloat \<Rightarrow> pyfloat \<Rightarrow> py_error + pyfloat" where
  "py_float_truediv x y = (if y = Fin 0 then Inl ZeroDivisionError else Inr (fdiv x y))"

text \<open>\<open>math.ceil(x)\<close>.\<close>

definition math_ceil :: "pyfloat \<Rightarrow> py_error + int" where
  "math_ceil x =
     (case x of Fin r \<Rightarrow> Inr \<lceil>r\<rceil> | NaN \<Rightarrow> Inl ValueError | _ \<Rightarrow> Inl OverflowError)"

text \<open>
  \<open>x ** 2\<close>: the rounded square; a finite \<open>x\<close> whose square is out of range raises
  \<open>OverflowError\<close>, an infinite \<open>x\<close> gives infinity.
\<close>

definition py_pow2 :: "pyfloat \<Rightarrow> py_error + pyfloat" where
  "py_pow2 x =
     (case x of
        Fin a \<Rightarrow> (case fl (a * a) of Fin r \<Rightarrow> Inr (Fin r) | _ \<Rightarrow> Inl OverflowError)
      | NaN \<Rightarrow> Inr NaN
      | _ \<Rightarrow> Inr PInf)"

text \<open>\<open>max(0.0, x)\<close>: the first argument unless the second is greater.\<close>

definition py_max0 :: "pyfloat \<Rightarrow> pyfloat" where
  "py_max0 x = (if lt_f (Fin 0) x then x else Fin 0)"

text \<open>
  \<open>math.pi\<close> is the binary64 constant \<open>0x1.921fb54442d18p+1\<close>, that is
  \<open>884279719003555 / 2 ^ 48\<close>.
\<close>

definition math_pi :: pyfloat where
  "math_pi = Fin (884279719003555 / 281474976710656)"

subsection \<open>Data\<close>

record CoilInputs =
  inner_diameter_mm :: pyfloat
  outer_diameter_mm :: pyfloat
  bobbin_length_mm :: pyfloat
  strand_diameter_mm :: pyfloat
  strands_per_turn :: int
  turns_per_layer :: int
  total_turns :: int
  insulation_factor :: pyfloat
  margin_mm :: pyfloat
  lead_slot_width_mm :: pyfloat
  lead_slot_depth_mm :: pyfloat
  horiz_pack_factor :: pyfloat
  vert_pack_factor :: pyfloat
  wire_type :: string

record CoilOutputs =
  window_width_mm :: pyfloat
  window_height_mm :: pyfloat
  layers :: int
  strand_centers :: "(pyfloat \<times> pyfloat) list"
  strand_radius_mm :: pyfloat
  fill_factor :: pyfloat
  adjusted_turns :: int

subsection \<open>The locals of \<open>compute\<close> that are computed before the window test\<close>

text \<open>The divisor \<open>2.0\<close> is a constant, so these divisions cannot raise.\<close>

definition radial_thickness :: "CoilInputs \<Rightarrow> pyfloat" where
  "radial_thickness p = fdiv (fsub (outer_diameter_mm p) (inner_diameter_mm p)) (Fin 2)"

definition window_height :: "CoilInputs \<Rightarrow> pyfloat" where
  "window_height p = py_max0 (fsub (radial_thickness p) (fmul (Fin 2) (margin_mm p)))"

definition window_width :: "CoilInputs \<Rightarrow> pyfloat" where
  "window_width p = py_max0 (fsub (bobbin_length_mm p) (fmul (Fin 2) (margin_mm p)))"

definition d_eff :: "CoilInputs \<Rightarrow> pyfloat" where
  "d_eff p = fmul (strand_diameter_mm p) (insulation_factor p)"

definition radius :: "CoilInputs \<Rightarrow> pyfloat" where
  "radius p = fdiv (d_eff p) (Fin 2)"

subsection \<open>The placement loops\<close>

text \<open>
  The innermost loop, \<open>for s in range(p.strands_per_turn)\<close>, appends one center per
  strand index to \<open>centers_global\<close>.
\<close>

fun strand_loop :: "CoilInputs \<Rightarrow> pyfloat \<Rightarrow> pyfloat \<Rightarrow> int list
    \<Rightarrow> (pyfloat \<times> pyfloat) list \<Rightarrow> py_error + (pyfloat \<times> pyfloat) list" where
  "strand_loop p base_x base_y [] centers = Inr centers"
| "strand_loop p base_x base_y (s # ss) centers =
     (case py_int_mul s (d_eff p) of
        Inl e \<Rightarrow> Inl e
      | Inr lx \<Rightarrow>
          strand_loop p base_x base_y ss
            (centers @ [(fadd (fadd base_x lx) (radius p), fadd base_y (radius p))]))"

text \<open>
  The middle loop, \<open>for tx in range(turns_this_layer)\<close>; \<open>spacing_x\<close> and \<open>spacing_y\<close>
  are the locals of \<open>compute\<close>.
\<close>

fun turn_loop :: "CoilInputs \<Rightarrow> pyfloat \<Rightarrow> pyfloat \<Rightarrow> int \<Rightarrow> int list
    \<Rightarrow> (pyfloat \<times> pyfloat) list \<Rightarrow> py_error + (pyfloat \<times> pyfloat) list" where
  "turn_loop p spacing_x spacing_y ly [] centers = Inr centers"
| "turn_loop p spacing_x spacing_y ly (tx # txs) centers =
     (case py_int_mul tx spacing_x of
        Inl e \<Rightarrow> Inl e
      | Inr mx \<Rightarrow>
          (case py_int_mul ly spacing_y of
             Inl e \<Rightarrow> Inl e
           | Inr my \<Rightarrow>
               (let base_x = fadd (margin_mm p) mx;
                    base_y = fadd (margin_mm p) my
                in case strand_loop p base_x base_y (py_range (strands_per_turn p)) centers of
                     Inl e \<Rightarrow> Inl e
                   | Inr centers' \<Rightarrow> turn_loop p spacing_x spacing_y ly txs centers')))"

text \<open>
  The state of the layer loop: the two variables the source updates, and two ghost
  fields that record how the loop ran: \<open>placed\<close> lists, for each iteration executed,
  the layer index and \<open>turns_this_layer\<close>; \<open>broke\<close> tells whether the loop was left
  through \<open>break\<close>.
\<close>

record loop_state =
  centers_global :: "(pyfloat \<times> pyfloat) list"
  remaining :: int
  placed :: "(int \<times> int) list"
  broke :: bool

fun layer_loop :: "CoilInputs \<Rightarrow> pyfloat \<Rightarrow> pyfloat \<Rightarrow> int list \<Rightarrow> loop_state
    \<Rightarrow> py_error + loop_state" where
  "layer_loop p spacing_x spacing_y [] st = Inr st"
| "layer_loop p spacing_x spacing_y (ly # lys) st =
     (let turns_this_layer = min (turns_per_layer p) (remaining st)
      in case turn_loop p spacing_x spacing_y ly (py_range turns_this_layer)
                (centers_global st) of
           Inl e \<Rightarrow> Inl e
         | Inr centers \<Rightarrow>
             (let remaining' = remaining st - turns_this_layer;
                  st' = \<lparr>centers_global = centers, remaining = remaining',
                         placed = placed st @ [(ly, turns_this_layer)], broke = False\<rparr>
              in if remaining' \<le> 0 then Inr (st'\<lparr>broke := True\<rparr>)
                 else layer_loop p spacing_x spacing_y lys st'))"

subsection \<open>\<open>CoilPackModel.compute\<close>\<close>

text \<open>\<open>layers = math.ceil(p.total_turns / max(1, p.turns_per_layer))\<close>.\<close>

definition layer_count :: "CoilInputs \<Rightarrow> py_error + int" where
  "layer_count p =
     (case py_int_truediv (total_turns p) (max 1 (turns_per_layer p)) of
        Inl e \<Rightarrow> Inl e
      | Inr q \<Rightarrow> math_ceil q)"

text \<open>The layer loop as \<open>compute\<close> starts it.\<close>

definition run_layers :: "CoilInputs \<Rightarrow> pyfloat \<Rightarrow> pyfloat \<Rightarrow> int
    \<Rightarrow> py_error + loop_state" where
  "run_layers p spacing_x spacing_y n =
     layer_loop p spacing_x spacing_y (py_range n)
       \<lparr>centers_global = [], remaining = total_turns p, placed = [], broke = False\<rparr>"

text \<open>
  \<open>sum(1 for (x, y) in centers_global if left <= x <= right and bottom <= y <= top)\<close>.
\<close>

definition in_window_count :: "CoilInputs \<Rightarrow> (pyfloat \<times> pyfloat) list \<Rightarrow> int" where
  "in_window_count p centers =
     (let left = margin_mm p; right = fadd (margin_mm p) (window_width p);
          bottom = margin_mm p; top = fadd (margin_mm p) (window_height p)
      in sum_list (map (\<lambda>c. 1)
           (filter (\<lambda>(x, y). le_f left x \<and> le_f x right \<and> le_f bottom y \<and> le_f y top)
              centers)))"

text \<open>
  The last lines of \<open>compute\<close>: \<open>copper_area\<close>, \<open>window_area\<close> and \<open>fill_factor\<close>.
  The left operand \<open>in_window_count * math.pi\<close> is evaluated before \<open>radius ** 2\<close>.
\<close>

definition fill_factor_of :: "CoilInputs \<Rightarrow> int \<Rightarrow> py_error + pyfloat" where
  "fill_factor_of p count =
     (case py_int_mul count math_pi of
        Inl e \<Rightarrow> Inl e
      | Inr cpi \<Rightarrow>
          (case py_pow2 (radius p) of
             Inl e \<Rightarrow> Inl e
           | Inr r2 \<Rightarrow>
               (let copper_area = fmul cpi r2;
                    window_area = fmul (window_width p) (window_height p)
                in if lt_f (Fin 0) window_area
                   then (case py_float_truediv copper_area window_area of
                           Inl e \<Rightarrow> Inl e
                         | Inr q \<Rightarrow> Inr (fmul q (Fin 100)))
                   else Inr (Fin 0))))"

definition compute :: "CoilInputs \<Rightarrow> py_error + CoilOutputs" where
  "compute p =
     (if le_f (window_width p) (Fin 0) \<or> le_f (window_height p) (Fin 0) then
        Inr \<lparr>window_width_mm = window_width p, window_height_mm = window_height p,
             layers = 0, strand_centers = [], strand_radius_mm = radius p,
             fill_factor = Fin 0, adjusted_turns = 0\<rparr>
      else
        case py_int_mul (strands_per_turn p) (d_eff p) of
          Inl e \<Rightarrow> Inl e
        | Inr bundle_w \<Rightarrow>
            (let spacing_x = fmul bundle_w (horiz_pack_factor p);
                 spacing_y = fmul (d_eff p) (vert_pack_factor p)
             in case layer_count p of
                  Inl e \<Rightarrow> Inl e
                | Inr n \<Rightarrow>
                    (case run_layers p spacing_x spacing_y n of
                       Inl e \<Rightarrow> Inl e
                     | Inr st \<Rightarrow>
                         (case fill_factor_of p
                                 (in_window_count p (centers_global st)) of
                            Inl e \<Rightarrow> Inl e
                          | Inr ff \<Rightarrow>
                              Inr \<lparr>window_width_mm = window_width p,
                                   window_height_mm = window_height p,
                                   layers = n, strand_centers = centers_global st,
                                   strand_radius_mm = radius p,
                                   fill_factor = ff,
                                   adjusted_turns = total_turns p\<rparr>))))"

subsection \<open>Notions the properties are stated with\<close>

text \<open>The window is valid when \<open>compute\<close> does not take its early return.\<close>

definition window_valid :: "CoilInputs \<Rightarrow> bool" where
  "window_valid p \<longleftrightarrow> lt_f (Fin 0) (window_width p) \<and> lt_f (Fin 0) (window_height p)"

text \<open>An \<open>int\<close> that \<open>float\<close> converts without \<open>OverflowError\<close>.\<close>

definition convertible :: "int \<Rightarrow> bool" where
  "convertible n \<longleftrightarrow> (\<exists>r. fl (of_int n) = Fin r)"

text \<open>
  The three counts are of magnitude at most \<open>2 ^ 53\<close>, \<open>total_turns\<close> strictly below:
  they convert to \<open>float\<close> without rounding.
\<close>

definition counts_ok :: "CoilInputs \<Rightarrow> bool" where
  "counts_ok p \<longleftrightarrow>
     \<bar>strands_per_turn p\<bar> \<le> 2 ^ 53 \<and> \<bar>turns_per_layer p\<bar> \<le> 2 ^ 53 \<and> \<bar>total_turns p\<bar> < 2 ^ 53"

text \<open>\<open>radius ** 2\<close> does not raise and is finite.\<close>

definition radius_ok :: "CoilInputs \<Rightarrow> bool" where
  "radius_ok p \<longleftrightarrow> (\<exists>r2. py_pow2 (radius p) = Inr (Fin r2))"

text \<open>The locals \<open>spacing_x\<close> and \<open>spacing_y\<close> of \<open>compute\<close>.\<close>

definition spacing_x :: "CoilInputs \<Rightarrow> pyfloat" where
  "spacing_x p =
     fmul (fmul (fl (of_int (strands_per_turn p))) (d_eff p)) (horiz_pack_factor p)"

definition spacing_y :: "CoilInputs \<Rightarrow> pyfloat" where
  "spacing_y p = fmul (d_eff p) (vert_pack_factor p)"

text \<open>The closed window \<open>[left, right] \<times> [bottom, top]\<close> of the fill factor.\<close>

definition in_window :: "CoilInputs \<Rightarrow> pyfloat \<times> pyfloat \<Rightarrow> bool" where
  "in_window p =
     (\<lambda>(x, y). le_f (margin_mm p) x \<and> le_f x (fadd (margin_mm p) (window_width p)) \<and>
        le_f (margin_mm p) y \<and> le_f y (fadd (margin_mm p) (window_height p)))"

text \<open>
  The center of strand \<open>s\<close> of turn \<open>tx\<close> of layer \<open>ly\<close>, for given spacings: the
  expression \<open>(base_x + lx + radius, base_y + radius)\<close> of the source, each \<open>int\<close>
  converted by the mixed multiplication it occurs in.
\<close>

definition center :: "CoilInputs \<Rightarrow> pyfloat \<Rightarrow> pyfloat \<Rightarrow> int \<Rightarrow> int \<Rightarrow> int
    \<Rightarrow> pyfloat \<times> pyfloat" where
  "center p sx sy ly tx s =
     (fadd (fadd (fadd (margin_mm p) (fmul (fl (of_int tx)) sx))
                 (fmul (fl (of_int s)) (d_eff p)))
           (radius p),
      fadd (fadd (margin_mm p) (fmul (fl (of_int ly)) sy)) (radius p))"

text \<open>The centers of one turn, of one layer of \<open>n\<close> turns, and of the \<open>k\<close>-th turn overall.\<close>

definition turn_block :: "CoilInputs \<Rightarrow> pyfloat \<Rightarrow> pyfloat \<Rightarrow> int \<Rightarrow> int
    \<Rightarrow> (pyfloat \<times> pyfloat) list" where
  "turn_block p sx sy ly tx = map (center p sx sy ly tx) (py_range (strands_per_turn p))"

definition layer_block :: "CoilInputs \<Rightarrow> pyfloat \<Rightarrow> pyfloat \<Rightarrow> int \<times> int
    \<Rightarrow> (pyfloat \<times> pyfloat) list" where
  "layer_block p sx sy = (\<lambda>(ly, n). concat (map (turn_block p sx sy ly) (py_range n)))"

definition turn_seq :: "CoilInputs \<Rightarrow> pyfloat \<Rightarrow> pyfloat \<Rightarrow> nat \<Rightarrow> (pyfloat \<times> pyfloat) list" where
  "turn_seq p sx sy k =
     turn_block p sx sy (int k div turns_per_layer p) (int k mod turns_per_layer p)"

text \<open>
  The fill factor the last lines of \<open>compute\<close> give for \<open>count\<close> centers in the window
  and the value \<open>r2\<close> of \<open>radius ** 2\<close>.
\<close>

definition fill_value :: "CoilInputs \<Rightarrow> int \<Rightarrow> pyfloat \<Rightarrow> pyfloat" where
  "fill_value p count r2 =
     (let copper_area = fmul (fmul (fl (of_int count)) math_pi) r2;
          window_area = fmul (window_width p) (window_height p)
      in if lt_f (Fin 0) window_area
         then fmul (fdiv copper_area window_area) (Fin 100)
         else Fin 0)"

text \<open>
  A \<open>float\<close> input that is finite: the value \<open>r\<close>, which binary64 represents.
\<close>

definition finite_float :: "pyfloat \<Rightarrow> real \<Rightarrow> bool" where
  "finite_float x r \<longleftrightarrow> x = Fin r \<and> fl r = Fin r"

subsection \<open>Concrete inputs\<close>

text \<open>
  Inputs whose lengths are small integers, so that no operation on them rounds: a 10 by
  20 window (\<open>outer - inner = 40\<close>, bobbin 10, no margin), an effective strand diameter
  of 2, and the counts of the application's own example: 3 strands per turn, 5 turns per
  layer, 180 turns.
\<close>

definition sample_inputs :: CoilInputs where
  "sample_inputs =
     \<lparr>inner_diameter_mm = Fin 0, outer_diameter_mm = Fin 40,
      bobbin_length_mm = Fin 10, strand_diameter_mm = Fin 2,
      strands_per_turn = 3, turns_per_layer = 5, total_turns = 180,
      insulation_factor = Fin 1, margin_mm = Fin 0,
      lead_slot_width_mm = Fin 10, lead_slot_depth_mm = Fin 5,
      horiz_pack_factor = Fin 1, vert_pack_factor = Fin 1,
      wire_type = ''Copper''\<rparr>"

text \<open>Counts outside the nominal domain.\<close>

definition negative_turns_inputs :: CoilInputs where
  "negative_turns_inputs = sample_inputs\<lparr>total_turns := - 5\<rparr>"

definition zero_tpl_inputs :: CoilInputs where
  "zero_tpl_inputs = sample_inputs\<lparr>turns_per_layer := 0, total_turns := 4\<rparr>"

text \<open>Counts beyond the range of \<open>float\<close>, or beyond the integers it represents.\<close>

definition huge_tpl_inputs :: CoilInputs where
  "huge_tpl_inputs = sample_inputs\<lparr>turns_per_layer := 2 ^ 1100, total_turns := 1\<rparr>"

definition huge_negative_turns_inputs :: CoilInputs where
  "huge_negative_turns_inputs =
     sample_inputs\<lparr>turns_per_layer := 1, total_turns := - (2 ^ 1024)\<rparr>"

definition zero_tpl_huge_turns_inputs :: CoilInputs where
  "zero_tpl_huge_turns_inputs =
     sample_inputs\<lparr>turns_per_layer := 0, total_turns := 2 ^ 1024\<rparr>"

definition odd_negative_turns_inputs :: CoilInputs where
  "odd_negative_turns_inputs =
     sample_inputs\<lparr>turns_per_layer := 1, total_turns := - (2 ^ 53 + 1)\<rparr>"

text \<open>A bobbin no longer than twice the margin.\<close>

definition short_bobbin_inputs :: CoilInputs where
  "short_bobbin_inputs = sample_inputs\<lparr>bobbin_length_mm := Fin 1, margin_mm := Fin 1\<rparr>"

text \<open>
  A 10 by 10 window holding two strands of radius 5, one above the other with their
  centers half a diameter apart.
\<close>

definition overpacked_inputs :: CoilInputs where
  "overpacked_inputs =
     \<lparr>inner_diameter_mm = Fin 0, outer_diameter_mm = Fin 20,
      bobbin_length_mm = Fin 10, strand_diameter_mm = Fin 10,
      strands_per_turn = 1, turns_per_layer = 1, total_turns = 2,
      insulation_factor = Fin 1, margin_mm = Fin 0,
      lead_slot_width_mm = Fin 10, lead_slot_depth_mm = Fin 5,
      horiz_pack_factor = Fin 1, vert_pack_factor = Fin (1 / 2),
      wire_type = ''Copper''\<rparr>"


text \<open>
  Lengths of the order of \<open>2 ^ - 600\<close>, whose products are below the smallest positive
  \<open>float\<close>: a window of 10 by 20 such units with two strands of radius 5 units, one per
  layer.
\<close>

definition tiny :: real where
  "tiny = 2 powi (- 600)"


section \<open>Properties of the model\<close>

subsection \<open>Rounding to an integer\<close>

lemma round_even_of_int [simp]: "round_even (of_int n) = n"
  by (simp add: round_even_def)

lemma round_even_0 [simp]: "round_even 0 = 0"
  using round_even_of_int[of 0] by simp

lemma round_even_cases:
  "round_even y = \<lfloor>y\<rfloor> \<and> y - of_int \<lfloor>y\<rfloor> \<le> 1 / 2
   \<or> round_even y = \<lfloor>y\<rfloor> + 1 \<and> 1 / 2 \<le> y - of_int \<lfloor>y\<rfloor>"
  by (auto simp: round_even_def Let_def)

lemma round_even_error: "\<bar>of_int (round_even y) - y\<bar> \<le> 1 / 2"
proof -
  have "of_int \<lfloor>y\<rfloor> \<le> y" "y < of_int \<lfloor>y\<rfloor> + 1" by linarith+
  with round_even_cases[of y] show ?thesis by auto
qed

lemma round_even_mono:
  assumes "a \<le> b"
  shows "round_even a \<le> round_even b"
proof (cases "\<lfloor>a\<rfloor> = \<lfloor>b\<rfloor>")
  case True
  from assms have "a - of_int \<lfloor>a\<rfloor> \<le> b - of_int \<lfloor>a\<rfloor>" by simp
  then show ?thesis by (auto simp: round_even_def Let_def True[symmetric])
next
  case False
  with assms have "\<lfloor>a\<rfloor> < \<lfloor>b\<rfloor>" by (simp add: floor_mono order_neq_le_trans)
  moreover have "round_even a \<le> \<lfloor>a\<rfloor> + 1" using round_even_cases[of a] by auto
  moreover have "\<lfloor>b\<rfloor> \<le> round_even b" using round_even_cases[of b] by auto
  ultimately show ?thesis by linarith
qed

lemma round_even_minus: "round_even (- y) = - round_even y"
proof (cases "y = of_int \<lfloor>y\<rfloor>")
  case True
  then obtain n where "y = of_int n" ..
  then have "- y = of_int (- n)" by simp
  then show ?thesis using \<open>y = of_int n\<close> by (simp only: round_even_of_int)
next
  case False
  then have f: "\<lfloor>- y\<rfloor> = - \<lfloor>y\<rfloor> - 1"
    using False by (simp add: floor_minus ceiling_altdef)
  have d: "- y - of_int (- \<lfloor>y\<rfloor> - 1) = 1 - (y - of_int \<lfloor>y\<rfloor>)" by simp
  have "of_int \<lfloor>y\<rfloor> \<le> y" "y < of_int \<lfloor>y\<rfloor> + 1" by linarith+
  then show ?thesis
    unfolding round_even_def Let_def f d by (auto simp: field_simps)
qed

lemma round_even_le_int: "a \<le> of_int n \<Longrightarrow> round_even a \<le> n"
  using round_even_mono[of a "of_int n"] by simp

lemma round_even_ge_int: "of_int n \<le> a \<Longrightarrow> n \<le> round_even a"
  using round_even_mono[of "of_int n" a] by simp

subsection \<open>Exponent and spacing\<close>

lemma two_powr_int: "(2::real) powr of_int k = 2 powi k"
  by (rule powr_real_of_int') simp_all

lemma floor_log2_bounds:
  assumes "x \<noteq> 0"
  shows "2 powi \<lfloor>log 2 \<bar>x\<bar>\<rfloor> \<le> \<bar>x\<bar>" and "\<bar>x\<bar> < 2 powi (\<lfloor>log 2 \<bar>x\<bar>\<rfloor> + 1)"
proof -
  from assms have "0 < \<bar>x\<bar>" by simp
  from floor_log_eq_powr_iff[OF this, of 2 "\<lfloor>log 2 \<bar>x\<bar>\<rfloor>"]
  have "2 powr of_int \<lfloor>log 2 \<bar>x\<bar>\<rfloor> \<le> \<bar>x\<bar> \<and> \<bar>x\<bar> < 2 powr of_int (\<lfloor>log 2 \<bar>x\<bar>\<rfloor> + 1)"
    by simp
  then show "2 powi \<lfloor>log 2 \<bar>x\<bar>\<rfloor> \<le> \<bar>x\<bar>" and "\<bar>x\<bar> < 2 powi (\<lfloor>log 2 \<bar>x\<bar>\<rfloor> + 1)"
    by (simp_all only: two_powr_int)
qed

lemma floor_log2_eqI:
  assumes "2 powi k \<le> \<bar>x\<bar>" and "\<bar>x\<bar> < 2 powi (k + 1)"
  shows "\<lfloor>log 2 \<bar>x\<bar>\<rfloor> = k"
proof -
  have "(0::real) < 2 powi k" by simp
  with assms(1) have "0 < \<bar>x\<bar>" by linarith
  have "(2::real) powr (of_int k + 1) = 2 powi (k + 1)"
    using two_powr_int[of "k + 1"] by simp
  with floor_log_eq_powr_iff[OF \<open>0 < \<bar>x\<bar>\<close>, of 2 k] assms show ?thesis
    by (simp add: two_powr_int)
qed

lemma b64_exp_minus [simp]: "b64_exp (- x) = b64_exp x"
  by (simp add: b64_exp_def)

lemma b64_exp_ge: "- 1022 \<le> b64_exp x"
  by (simp add: b64_exp_def)

lemma b64_exp_upper:
  assumes "x \<noteq> 0"
  shows "\<bar>x\<bar> < 2 powi (b64_exp x + 1)"
proof -
  have "\<lfloor>log 2 \<bar>x\<bar>\<rfloor> + 1 \<le> b64_exp x + 1" by (simp add: b64_exp_def)
  then have "(2::real) powi (\<lfloor>log 2 \<bar>x\<bar>\<rfloor> + 1) \<le> 2 powi (b64_exp x + 1)"
    by (intro power_int_increasing) simp_all
  with floor_log2_bounds(2)[OF assms] show ?thesis by linarith
qed

lemma b64_exp_lower:
  assumes "x \<noteq> 0" and "- 1022 < b64_exp x"
  shows "2 powi (b64_exp x) \<le> \<bar>x\<bar>"
proof -
  from assms(2) have "b64_exp x = \<lfloor>log 2 \<bar>x\<bar>\<rfloor>" by (simp add: b64_exp_def max_def split: if_splits)
  with floor_log2_bounds(1)[OF assms(1)] show ?thesis by simp
qed

lemma b64_exp_eqI:
  assumes "2 powi k \<le> \<bar>x\<bar>" and "\<bar>x\<bar> < 2 powi (k + 1)" and "- 1022 \<le> k"
  shows "b64_exp x = k"
  using floor_log2_eqI[OF assms(1,2)] assms(3) by (simp add: b64_exp_def)

lemma b64_exp_small:
  assumes "x \<noteq> 0" and "\<bar>x\<bar> < 2 powi (- 1022)"
  shows "b64_exp x = - 1022"
proof -
  have "\<lfloor>log 2 \<bar>x\<bar>\<rfloor> < - 1022"
  proof (rule ccontr)
    assume "\<not> \<lfloor>log 2 \<bar>x\<bar>\<rfloor> < - 1022"
    then have "- 1022 \<le> \<lfloor>log 2 \<bar>x\<bar>\<rfloor>" by simp
    then have "(2::real) powi (- 1022) \<le> 2 powi \<lfloor>log 2 \<bar>x\<bar>\<rfloor>"
      by (intro power_int_increasing) simp_all
    with floor_log2_bounds(1)[OF assms(1)] assms(2) show False by linarith
  qed
  then show ?thesis by (simp add: b64_exp_def)
qed

lemma b64_exp_mono:
  assumes "0 < x" and "x \<le> y"
  shows "b64_exp x \<le> b64_exp y"
proof -
  from assms have "log 2 \<bar>x\<bar> \<le> log 2 \<bar>y\<bar>" by (simp add: log_mono)
  then have "\<lfloor>log 2 \<bar>x\<bar>\<rfloor> \<le> \<lfloor>log 2 \<bar>y\<bar>\<rfloor>" by (rule floor_mono)
  then show ?thesis by (simp add: b64_exp_def)
qed

lemma b64_ulp_pos [simp]: "0 < b64_ulp x"
  by (simp add: b64_ulp_def)

lemma b64_ulp_nonneg [simp]: "0 \<le> b64_ulp x"
  by (simp add: b64_ulp_def)

lemma b64_ulp_nonzero [simp]: "b64_ulp x \<noteq> 0"
  by (simp add: b64_ulp_def)

lemma b64_ulp_minus [simp]: "b64_ulp (- x) = b64_ulp x"
  by (simp add: b64_ulp_def)

lemma b64_round_0 [simp]: "b64_round 0 = 0"
  by (simp add: b64_round_def)

lemma b64_round_minus: "b64_round (- x) = - b64_round x"
  by (simp add: b64_round_def round_even_minus)

lemma b64_round_exact:
  assumes "x / b64_ulp x = of_int m"
  shows "b64_round x = x"
proof -
  have "b64_round x = of_int m * b64_ulp x" by (simp add: b64_round_def assms)
  also have "\<dots> = x / b64_ulp x * b64_ulp x" by (simp only: assms)
  also have "\<dots> = x" using b64_ulp_pos[of x] by simp
  finally show ?thesis .
qed

lemma b64_round_error: "\<bar>b64_round x - x\<bar> \<le> b64_ulp x / 2"
proof -
  let ?u = "b64_ulp x"
  have "b64_round x - x = (of_int (round_even (x / ?u)) - x / ?u) * ?u"
    using b64_ulp_pos[of x] by (simp add: b64_round_def field_simps)
  then have "\<bar>b64_round x - x\<bar> = \<bar>of_int (round_even (x / ?u)) - x / ?u\<bar> * ?u"
    using b64_ulp_pos[of x] by (simp add: abs_mult)
  also have "\<dots> \<le> 1 / 2 * ?u"
    by (intro mult_right_mono round_even_error) simp
  finally show ?thesis by simp
qed

lemma b64_round_nonneg: "0 \<le> x \<Longrightarrow> 0 \<le> b64_round x"
proof -
  assume "0 \<le> x"
  then have "of_int 0 \<le> x / b64_ulp x" by simp
  then have "0 \<le> round_even (x / b64_ulp x)" by (rule round_even_ge_int)
  then show ?thesis by (simp add: b64_round_def)
qed

lemma b64_round_le_grid:
  assumes "x \<le> of_int n * b64_ulp x"
  shows "b64_round x \<le> of_int n * b64_ulp x"
proof -
  from assms have "x / b64_ulp x \<le> of_int n" by (simp add: field_simps)
  then have "round_even (x / b64_ulp x) \<le> n" by (rule round_even_le_int)
  then show ?thesis by (simp add: b64_round_def)
qed

lemma b64_round_ge_grid:
  assumes "of_int n * b64_ulp x \<le> x"
  shows "of_int n * b64_ulp x \<le> b64_round x"
proof -
  from assms have "of_int n \<le> x / b64_ulp x" by (simp add: field_simps)
  then have "n \<le> round_even (x / b64_ulp x)" by (rule round_even_ge_int)
  then show ?thesis by (simp add: b64_round_def)
qed

subsection \<open>Monotonicity and exactness of rounding\<close>

lemma two_powi_succ53: "(2::real) powi (e + 1) = of_int (2 ^ 53) * 2 powi (e - 52)"
proof -
  have "(2::real) powi (53 + (e - 52)) = 2 powi 53 * 2 powi (e - 52)"
    by (rule power_int_add) simp
  then show ?thesis by (simp add: add.commute)
qed

lemma two_powi_52: "(2::real) powi e = of_int (2 ^ 52) * 2 powi (e - 52)"
proof -
  have "(2::real) powi (52 + (e - 52)) = 2 powi 52 * 2 powi (e - 52)"
    by (rule power_int_add) simp
  then show ?thesis by simp
qed

lemma b64_round_le_next:
  assumes "x \<noteq> 0"
  shows "b64_round x \<le> 2 powi (b64_exp x + 1)"
proof -
  have "x \<le> \<bar>x\<bar>" by simp
  also have "\<dots> < 2 powi (b64_exp x + 1)" by (rule b64_exp_upper[OF assms])
  finally have "x \<le> of_int (2 ^ 53) * b64_ulp x"
    by (simp add: two_powi_succ53 b64_ulp_def)
  then have "b64_round x \<le> of_int (2 ^ 53) * b64_ulp x" by (rule b64_round_le_grid)
  then show ?thesis by (simp add: two_powi_succ53 b64_ulp_def)
qed

lemma b64_round_ge_exp:
  assumes "0 < x" and "- 1022 < b64_exp x"
  shows "2 powi (b64_exp x) \<le> b64_round x"
proof -
  from assms have "2 powi (b64_exp x) \<le> \<bar>x\<bar>" by (intro b64_exp_lower) simp_all
  with assms(1) have "of_int (2 ^ 52) * b64_ulp x \<le> x"
    using two_powi_52[of "b64_exp x"] by (simp add: b64_ulp_def)
  then have "of_int (2 ^ 52) * b64_ulp x \<le> b64_round x" by (rule b64_round_ge_grid)
  then show ?thesis using two_powi_52[of "b64_exp x"] by (simp add: b64_ulp_def)
qed

lemma b64_round_mono_pos:
  assumes "0 < x" and "x \<le> y"
  shows "b64_round x \<le> b64_round y"
proof (cases "b64_exp x = b64_exp y")
  case True
  then have u: "b64_ulp x = b64_ulp y" by (simp add: b64_ulp_def)
  from assms(2) have "x / b64_ulp y \<le> y / b64_ulp y" by (simp add: divide_right_mono)
  then have "round_even (x / b64_ulp y) \<le> round_even (y / b64_ulp y)"
    by (rule round_even_mono)
  then show ?thesis by (simp add: b64_round_def u)
next
  case False
  with b64_exp_mono[OF assms] have lt: "b64_exp x < b64_exp y" by simp
  with b64_exp_ge[of x] have "- 1022 < b64_exp y" by linarith
  moreover from assms have "0 < y" by simp
  ultimately have "2 powi (b64_exp y) \<le> b64_round y" by (intro b64_round_ge_exp)
  moreover from assms(1) have "b64_round x \<le> 2 powi (b64_exp x + 1)"
    by (intro b64_round_le_next) simp
  moreover from lt have "(2::real) powi (b64_exp x + 1) \<le> 2 powi (b64_exp y)"
    by (intro power_int_increasing) simp_all
  ultimately show ?thesis by linarith
qed

lemma b64_round_nonpos: "x \<le> 0 \<Longrightarrow> b64_round x \<le> 0"
  using b64_round_nonneg[of "- x"] by (simp add: b64_round_minus)

lemma b64_round_mono:
  assumes "x \<le> y"
  shows "b64_round x \<le> b64_round y"
proof -
  consider "0 < x" | "x \<le> 0" "0 \<le> y" | "y < 0" by linarith
  then show ?thesis
  proof cases
    case 1
    then show ?thesis using assms by (rule b64_round_mono_pos)
  next
    case 2
    then have "b64_round x \<le> 0" "0 \<le> b64_round y"
      by (simp_all add: b64_round_nonpos b64_round_nonneg)
    then show ?thesis by simp
  next
    case 3
    with assms have "0 < - y" "- y \<le> - x" by simp_all
    then have "b64_round (- y) \<le> b64_round (- x)" by (rule b64_round_mono_pos)
    then show ?thesis by (simp add: b64_round_minus)
  qed
qed

lemma b64_round_dyadic_lt:
  assumes m: "\<bar>m\<bar> < 2 ^ 53" and j: "- 1074 \<le> j"
  shows "b64_round (of_int m * 2 powi j) = of_int m * 2 powi j"
proof (cases "m = 0")
  case True
  then show ?thesis by simp
next
  case False
  let ?x = "of_int m * (2::real) powi j"
  have x0: "?x \<noteq> 0" using False by simp
  have ax: "\<bar>?x\<bar> = of_int \<bar>m\<bar> * 2 powi j" by (simp add: abs_mult)
  have "real_of_int \<bar>m\<bar> < 2 ^ 53" using m by (metis of_int_less_numeral_power_cancel_iff)
  then have "\<bar>?x\<bar> < 2 ^ 53 * 2 powi j" unfolding ax by (intro mult_strict_right_mono) simp_all
  also have "\<dots> = 2 powi (53 + j)" by (simp add: power_int_add)
  finally have up: "\<bar>?x\<bar> < 2 powi (53 + j)" .
  have "\<lfloor>log 2 \<bar>?x\<bar>\<rfloor> < 53 + j"
  proof (rule ccontr)
    assume "\<not> \<lfloor>log 2 \<bar>?x\<bar>\<rfloor> < 53 + j"
    then have "(2::real) powi (53 + j) \<le> 2 powi \<lfloor>log 2 \<bar>?x\<bar>\<rfloor>"
      by (intro power_int_increasing) simp_all
    with floor_log2_bounds(1)[OF x0] up show False by linarith
  qed
  with j have e: "b64_exp ?x \<le> 52 + j" by (simp add: b64_exp_def)
  define k where "k = b64_exp ?x"
  define d where "d = nat (52 + j - k)"
  from e have d: "int d = 52 + j - k" by (simp add: d_def k_def)
  have "(2::real) powi j = 2 powi (int d + (k - 52))" by (simp add: d)
  also have "\<dots> = 2 ^ d * 2 powi (k - 52)"
    by (subst power_int_add) simp_all
  finally have "of_int m * 2 powi j / 2 powi (k - 52) = real_of_int (m * 2 ^ d)"
    by simp
  then have "?x / b64_ulp ?x = of_int (m * 2 ^ d)"
    unfolding b64_ulp_def k_def .
  then show ?thesis by (rule b64_round_exact)
qed

lemma b64_round_dyadic:
  assumes m: "\<bar>m\<bar> \<le> 2 ^ 53" and j: "- 1074 \<le> j"
  shows "b64_round (of_int m * 2 powi j) = of_int m * 2 powi j"
proof (cases "\<bar>m\<bar> < 2 ^ 53")
  case True
  then show ?thesis using j by (rule b64_round_dyadic_lt)
next
  case False
  with m have "\<bar>m\<bar> = 2 ^ 53" by simp
  then consider "m = 2 ^ 53" | "m = - (2 ^ 53)" by (auto simp: abs_if split: if_splits)
  then show ?thesis
  proof cases
    case 1
    have "(2::real) powi (j + 1) = 2 powi j * 2" by (simp add: power_int_add)
    then have "of_int m * (2::real) powi j = of_int (2 ^ 52) * 2 powi (j + 1)"
      unfolding 1 by simp
    moreover have "b64_round (of_int (2 ^ 52) * 2 powi (j + 1)) = of_int (2 ^ 52) * 2 powi (j + 1)"
      using j by (intro b64_round_dyadic_lt) simp_all
    ultimately show ?thesis by simp
  next
    case 2
    have "(2::real) powi (j + 1) = 2 powi j * 2" by (simp add: power_int_add)
    then have "of_int m * (2::real) powi j = of_int (- (2 ^ 52)) * 2 powi (j + 1)"
      unfolding 2 by simp
    moreover have "b64_round (of_int (- (2 ^ 52)) * 2 powi (j + 1))
        = of_int (- (2 ^ 52)) * 2 powi (j + 1)"
      using j by (intro b64_round_dyadic_lt) simp_all
    ultimately show ?thesis by simp
  qed
qed

lemma b64_round_of_int:
  assumes "\<bar>n\<bar> \<le> 2 ^ 53"
  shows "b64_round (of_int n) = of_int n"
  using b64_round_dyadic[OF assms, of 0] by simp

lemma round_even_abs_le:
  assumes "\<bar>y\<bar> \<le> of_int n"
  shows "\<bar>round_even y\<bar> \<le> n"
proof -
  from assms have "y \<le> of_int n" "of_int (- n) \<le> y" by simp_all
  then have "round_even y \<le> n" "- n \<le> round_even y"
    by (simp_all only: round_even_le_int round_even_ge_int)
  then show ?thesis by simp
qed

lemma b64_round_idem: "b64_round (b64_round x) = b64_round x"
proof (cases "x = 0")
  case True
  then show ?thesis by simp
next
  case False
  let ?m = "round_even (x / b64_ulp x)"
  from b64_exp_upper[OF False] have "\<bar>x\<bar> \<le> of_int (2 ^ 53) * b64_ulp x"
    by (simp add: two_powi_succ53 b64_ulp_def)
  then have "\<bar>x / b64_ulp x\<bar> \<le> of_int (2 ^ 53)"
    by (simp add: field_simps)
  then have "\<bar>?m\<bar> \<le> 2 ^ 53" by (rule round_even_abs_le)
  moreover have "- 1074 \<le> b64_exp x - 52" using b64_exp_ge[of x] by simp
  ultimately have "b64_round (of_int ?m * 2 powi (b64_exp x - 52))
      = of_int ?m * 2 powi (b64_exp x - 52)"
    by (rule b64_round_dyadic)
  then show ?thesis by (simp add: b64_round_def b64_ulp_def)
qed

lemma b64_round_eval:
  assumes "2 powi k \<le> \<bar>x\<bar>" and "\<bar>x\<bar> < 2 powi (k + 1)" and "- 1022 \<le> k"
  shows "b64_round x = of_int (round_even (x / 2 powi (k - 52))) * 2 powi (k - 52)"
  by (simp add: b64_round_def b64_ulp_def b64_exp_eqI[OF assms])

lemma b64_round_eval_small:
  assumes "\<bar>x\<bar> < 2 powi (- 1022)"
  shows "b64_round x = of_int (round_even (x / 2 powi (- 1074))) * 2 powi (- 1074)"
proof (cases "x = 0")
  case True
  then show ?thesis by simp
next
  case False
  then show ?thesis by (simp add: b64_round_def b64_ulp_def b64_exp_small[OF False assms])
qed

subsection \<open>Rounded results\<close>

lemma b64_huge_pos: "0 < b64_huge"
  by (simp add: b64_huge_def)

lemma b64_exp_0: "b64_exp 0 = 0"
  by (simp add: b64_exp_def log_def)

lemma b64_huge_gt_53: "2 ^ 53 < b64_huge"
  by (simp add: b64_huge_def)

lemma fl_0 [simp]: "fl 0 = Fin 0"
  using b64_huge_pos by (simp add: fl_def not_le)

lemma fl_not_NaN [simp]: "fl x \<noteq> NaN"
  by (simp add: fl_def Let_def)

lemma fl_FinD: "fl x = Fin r \<Longrightarrow> r = b64_round x \<and> \<bar>r\<bar> < b64_huge"
  by (auto simp: fl_def Let_def split: if_splits)

lemma fl_FinI: "\<bar>b64_round x\<bar> < b64_huge \<Longrightarrow> fl x = Fin (b64_round x)"
  by (auto simp: fl_def Let_def)

lemma fl_PInf_iff: "fl x = PInf \<longleftrightarrow> b64_huge \<le> b64_round x"
  by (auto simp: fl_def Let_def)

lemma fl_NInf_iff: "fl x = NInf \<longleftrightarrow> b64_round x \<le> - (b64_huge)"
proof -
  have "\<not> (b64_round x \<le> - b64_huge \<and> b64_huge \<le> b64_round x)"
    using b64_huge_pos by linarith
  then show ?thesis by (auto simp: fl_def Let_def)
qed

lemma fl_mono:
  assumes "x \<le> y"
  shows "le_f (fl x) (fl y)"
proof -
  from assms have "b64_round x \<le> b64_round y" by (rule b64_round_mono)
  then show ?thesis by (auto simp: fl_def Let_def)
qed

lemma fl_dyadic:
  assumes "\<bar>m\<bar> \<le> 2 ^ 53" and "- 1074 \<le> j" and "\<bar>of_int m * (2::real) powi j\<bar> < b64_huge"
  shows "fl (of_int m * 2 powi j) = Fin (of_int m * 2 powi j)"
  using fl_FinI[of "of_int m * 2 powi j"] assms by (simp add: b64_round_dyadic)

lemma fl_of_int:
  assumes "\<bar>n\<bar> \<le> 2 ^ 53"
  shows "fl (of_int n) = Fin (of_int n)"
proof -
  from assms have "real_of_int \<bar>n\<bar> \<le> 2 ^ 53"
    by (metis of_int_le_numeral_power_cancel_iff)
  moreover note b64_huge_gt_53
  ultimately have "\<bar>real_of_int n\<bar> < b64_huge" by simp
  then show ?thesis using fl_FinI[of "of_int n"] by (simp add: b64_round_of_int[OF assms])
qed

lemma fl_idem: "fl x = Fin r \<Longrightarrow> fl r = Fin r"
proof -
  assume a: "fl x = Fin r"
  then have r: "r = b64_round x" "\<bar>r\<bar> < b64_huge" by (simp_all add: fl_FinD)
  then have "b64_round r = r" by (simp add: b64_round_idem)
  with r(2) show ?thesis using fl_FinI[of r] by simp
qed

lemma fl_nonneg: "0 \<le> x \<Longrightarrow> le_f (Fin 0) (fl x)"
  using fl_mono[of 0 x] by simp

lemma fl_nonpos: "x \<le> 0 \<Longrightarrow> le_f (fl x) (Fin 0)"
  using fl_mono[of x 0] by simp

lemma int_to_float_exact:
  "\<bar>n\<bar> \<le> 2 ^ 53 \<Longrightarrow> int_to_float n = Inr (Fin (of_int n))"
  by (simp add: int_to_float_def fl_of_int)

lemma py_int_mul_exact:
  "\<bar>n\<bar> \<le> 2 ^ 53 \<Longrightarrow> py_int_mul n x = Inr (fmul (Fin (of_int n)) x)"
  by (simp add: py_int_mul_def int_to_float_exact)

lemma half_ulp_less:
  assumes a: "\<bar>a\<bar> < 2 ^ 53" "a \<noteq> 0" and b: "1 \<le> b" "b \<le> 2 ^ 53"
  shows "b64_ulp (of_int a / of_int b) / 2 < 1 / real_of_int b"
proof -
  let ?q = "real_of_int a / real_of_int b"
  have bpos: "0 < real_of_int b" using b(1) by simp
  have q0: "?q \<noteq> 0" using a(2) b(1) by simp
  have half: "b64_ulp ?q / 2 = 2 powi (b64_exp ?q) * 2 powi (- 53)"
  proof -
    have "(2::real) powi (b64_exp ?q - 52) = 2 powi (b64_exp ?q + (- 53) + 1)" by simp
    also have "\<dots> = 2 powi (b64_exp ?q + (- 53)) * 2"
      by (subst power_int_add) simp_all
    also have "2 powi (b64_exp ?q + (- 53)) = (2::real) powi (b64_exp ?q) * 2 powi (- 53)"
      by (rule power_int_add) simp
    finally show ?thesis by (simp add: b64_ulp_def)
  qed
  have b53: "real_of_int b \<le> 2 ^ 53" using b(2) by (metis of_int_le_numeral_power_cancel_iff)
  have inv: "(2::real) powi (- 53) = 1 / 2 ^ 53" by (simp add: power_int_minus_divide)
  show ?thesis
  proof (cases "- 1022 < b64_exp ?q")
    case True
    with q0 have "2 powi (b64_exp ?q) \<le> \<bar>?q\<bar>" by (intro b64_exp_lower)
    then have "b64_ulp ?q / 2 \<le> \<bar>?q\<bar> * 2 powi (- 53)"
      unfolding half by (intro mult_right_mono) simp_all
    also have "\<dots> = real_of_int \<bar>a\<bar> / 2 ^ 53 / real_of_int b"
      using bpos by (simp add: inv abs_divide)
    also have "\<dots> < 1 / real_of_int b"
    proof -
      have "real_of_int \<bar>a\<bar> < 2 ^ 53"
        using a(1) by (metis of_int_less_numeral_power_cancel_iff)
      then have "real_of_int \<bar>a\<bar> / 2 ^ 53 < 1" by simp
      then show ?thesis using bpos by (rule divide_strict_right_mono)
    qed
    finally show ?thesis .
  next
    case False
    then have "b64_exp ?q \<le> - 1" by linarith
    then have "(2::real) powi (b64_exp ?q) \<le> 2 powi (- 1)"
      by (intro power_int_increasing) simp_all
    then have "b64_ulp ?q / 2 \<le> 2 powi (- 1) * 2 powi (- 53)"
      unfolding half by (intro mult_right_mono) simp_all
    also have "\<dots> < 1 / 2 ^ 53" by (simp add: inv power_int_minus_divide)
    finally have "b64_ulp ?q / 2 < 1 / 2 ^ 53" .
    moreover have "1 / (2::real) ^ 53 \<le> 1 / real_of_int b"
      using bpos b53 by (simp add: frac_le)
    ultimately show ?thesis by linarith
  qed
qed

lemma int_truediv_ceiling:
  assumes a: "\<bar>a\<bar> < 2 ^ 53" and b: "1 \<le> b" "b \<le> 2 ^ 53"
  shows "\<exists>r. py_int_truediv a b = Inr (Fin r)
    \<and> \<lceil>r\<rceil> = \<lceil>real_of_int a / real_of_int b\<rceil>"
proof -
  let ?q = "real_of_int a / real_of_int b"
  let ?c = "\<lceil>?q\<rceil>"
  have bpos: "0 < real_of_int b" using b(1) by simp
  have ra: "real_of_int \<bar>a\<bar> < 2 ^ 53"
    using a by (metis of_int_less_numeral_power_cancel_iff)
  have "\<bar>?q\<bar> \<le> real_of_int \<bar>a\<bar>"
  proof -
    have "\<bar>?q\<bar> = real_of_int \<bar>a\<bar> / real_of_int b" using bpos by (simp add: abs_divide)
    also have "\<dots> \<le> real_of_int \<bar>a\<bar> / 1"
      using b(1) by (intro divide_left_mono) simp_all
    finally show ?thesis by simp
  qed
  with ra have "?q \<le> 2 ^ 53" "- (2 ^ 53) \<le> ?q" by linarith+
  then have qb: "?q \<le> of_int (2 ^ 53)" "of_int (- (2 ^ 53)) \<le> ?q" by simp_all
  have r53: "\<bar>b64_round ?q\<bar> \<le> 2 ^ 53"
  proof -
    have p: "b64_round (of_int (2 ^ 53)) = of_int (2 ^ 53)"
      by (rule b64_round_of_int) simp
    have n: "b64_round (of_int (- (2 ^ 53))) = of_int (- (2 ^ 53))"
      by (rule b64_round_of_int) simp
    have "b64_round ?q \<le> of_int (2 ^ 53)"
      using b64_round_mono[OF qb(1)] by (simp only: p)
    moreover have "of_int (- (2 ^ 53)) \<le> b64_round ?q"
      using b64_round_mono[OF qb(2)] by (simp only: n)
    ultimately show ?thesis by simp
  qed
  with b64_huge_gt_53 have "\<bar>b64_round ?q\<bar> < b64_huge" by linarith
  then have fl: "fl ?q = Fin (b64_round ?q)" by (rule fl_FinI)
  have c53: "\<bar>?c\<bar> \<le> 2 ^ 53"
  proof -
    from ceiling_le[OF qb(1)] have "?c \<le> 2 ^ 53" .
    moreover from order_trans[OF qb(2) le_of_int_ceiling] have "- (2 ^ 53) \<le> ?c"
      by (simp only: of_int_le_iff)
    ultimately show ?thesis by (simp only: abs_le_iff minus_le_iff[of ?c] simp_thms)
  qed
  have upper: "b64_round ?q \<le> of_int ?c"
  proof -
    have "b64_round ?q \<le> b64_round (of_int ?c)" by (intro b64_round_mono) simp
    then show ?thesis by (simp add: b64_round_of_int[OF c53])
  qed
  have lower: "of_int ?c - 1 < b64_round ?q"
  proof (cases "a = 0")
    case True
    then show ?thesis by simp
  next
    case False
    have "(?c - 1) * b < a"
    proof -
      have "of_int (?c - 1) < ?q" by simp linarith
      then have "of_int (?c - 1) * real_of_int b < real_of_int a"
        using bpos by (simp add: field_simps)
      then have "real_of_int ((?c - 1) * b) < real_of_int a" by simp
      then show ?thesis by (simp only: of_int_less_iff)
    qed
    then have "(?c - 1) * b + 1 \<le> a" by simp
    then have "real_of_int ((?c - 1) * b + 1) \<le> real_of_int a" by (simp only: of_int_le_iff)
    then have le: "(of_int ?c - 1) * real_of_int b + 1 \<le> real_of_int a" by simp
    define C where "C = real_of_int ?c - 1"
    have "(C * real_of_int b + 1) / real_of_int b \<le> ?q"
      using le bpos unfolding C_def by (intro divide_right_mono) simp_all
    moreover have "(C * real_of_int b + 1) / real_of_int b = C + 1 / real_of_int b"
      using bpos by (simp add: add_divide_distrib)
    ultimately have "of_int ?c - 1 + 1 / real_of_int b \<le> ?q"
      unfolding C_def by simp
    moreover have "?q - b64_ulp ?q / 2 \<le> b64_round ?q"
      using b64_round_error[of ?q] by linarith
    moreover note half_ulp_less[OF a False b]
    ultimately show ?thesis by linarith
  qed
  from upper lower have "\<lceil>b64_round ?q\<rceil> = ?c" by (intro ceiling_unique) simp_all
  moreover from b(1) have "b \<noteq> 0" by simp
  ultimately show ?thesis by (simp add: py_int_truediv_def fl)
qed

subsection \<open>Order of the float values\<close>

lemma le_f_refl: "x \<noteq> NaN \<Longrightarrow> le_f x x"
  by (cases x) simp_all

lemma le_f_trans: "le_f x y \<Longrightarrow> le_f y z \<Longrightarrow> le_f x z"
  by (cases x; cases y; cases z) simp_all

lemma le_f_PInf: "x \<noteq> NaN \<Longrightarrow> le_f x PInf"
  by (cases x) simp_all

lemma le_f_NInf: "x \<noteq> NaN \<Longrightarrow> le_f NInf x"
  by (cases x) simp_all

lemma le_f_not_NaN: "le_f x y \<Longrightarrow> x \<noteq> NaN \<and> y \<noteq> NaN"
  by (cases x; cases y) simp_all

lemma lt_f_Fin [simp]: "lt_f (Fin a) (Fin b) \<longleftrightarrow> a < b"
  by (auto simp: lt_f_def)

lemma lt_f_0_cases:
  "lt_f (Fin 0) x \<longleftrightarrow> x = PInf \<or> (\<exists>r. x = Fin r \<and> 0 < r)"
  by (cases x) (auto simp: lt_f_def)

lemma le_f_0_iff: "le_f x (Fin 0) \<longleftrightarrow> x = NInf \<or> (\<exists>r. x = Fin r \<and> r \<le> 0)"
  by (cases x) simp_all

lemma py_max0_cases: "py_max0 x = PInf \<or> (\<exists>r. py_max0 x = Fin r \<and> 0 \<le> r)"
  by (cases x) (auto simp: py_max0_def lt_f_def)

lemma py_max0_le0_iff: "le_f (py_max0 x) (Fin 0) \<longleftrightarrow> \<not> lt_f (Fin 0) x"
  by (cases x) (auto simp: py_max0_def lt_f_def)

lemma py_max0_pos: "\<not> le_f (py_max0 x) (Fin 0) \<Longrightarrow> py_max0 x = x \<and> lt_f (Fin 0) x"
  by (cases x) (auto simp: py_max0_def lt_f_def split: if_splits)

lemma le_f_fl_PInf [simp]: "le_f (fl x) PInf"
  by (rule le_f_PInf) simp

lemma le_f_NInf_fl [simp]: "le_f NInf (fl x)"
  by (rule le_f_NInf) simp

lemma fadd_mono_left:
  assumes "le_f a b"
  shows "le_f (fadd a (Fin c)) (fadd b (Fin c))"
  using assms by (cases a; cases b) (simp_all add: fl_mono)

lemma fadd_mono_right:
  assumes "le_f a b"
  shows "le_f (fadd (Fin c) a) (fadd (Fin c) b)"
  using assms by (cases a; cases b) (simp_all add: fl_mono)

lemma fl_cases: "fl x = PInf \<or> fl x = NInf \<or> (\<exists>r. fl x = Fin r)"
  by (cases "fl x") simp_all

lemma fl_nonneg_cases:
  assumes "0 \<le> x"
  shows "fl x = PInf \<or> (\<exists>r. fl x = Fin r \<and> 0 \<le> r)"
proof -
  from fl_nonneg[OF assms] show ?thesis by (cases "fl x") simp_all
qed

lemma b64_round_pow2_1023: "b64_round (2 ^ 1023) = 2 ^ 1023"
  using b64_round_dyadic[of 1 1023] by simp

lemma fl_bounded:
  assumes "\<bar>x\<bar> \<le> 2 ^ 1023"
  shows "\<exists>r. fl x = Fin r \<and> r = b64_round x"
proof -
  from assms have "x \<le> 2 ^ 1023" "- (2 ^ 1023) \<le> x" by linarith+
  then have "b64_round x \<le> b64_round (2 ^ 1023)" "b64_round (- (2 ^ 1023)) \<le> b64_round x"
    by (simp_all only: b64_round_mono)
  then have "b64_round x \<le> 2 ^ 1023" "- (2 ^ 1023) \<le> b64_round x"
    by (simp_all only: b64_round_minus b64_round_pow2_1023)
  moreover have "(2::real) ^ 1023 < b64_huge" by (simp add: b64_huge_def)
  ultimately have "\<bar>b64_round x\<bar> < b64_huge" by linarith
  then show ?thesis by (simp add: fl_FinI)
qed

lemma int_to_float_ok:
  assumes "\<bar>n\<bar> \<le> 2 ^ 1023"
  shows "\<exists>r. int_to_float n = Inr (Fin r) \<and> fl (of_int n) = Fin r"
proof -
  from assms have "\<bar>real_of_int n\<bar> \<le> 2 ^ 1023"
    by (metis of_int_abs of_int_le_numeral_power_cancel_iff)
  from fl_bounded[OF this] show ?thesis by (auto simp: int_to_float_def)
qed

lemma int_to_float_InrD: "int_to_float n = Inr f \<Longrightarrow> f = fl (of_int n)"
  by (cases "fl (of_int n)") (simp_all add: int_to_float_def)

lemma py_int_mul_InrD: "py_int_mul n x = Inr y \<Longrightarrow> y = fmul (fl (of_int n)) x"
  by (auto simp: py_int_mul_def dest: int_to_float_InrD split: sum.splits)

lemma py_int_mul_53:
  "\<bar>n\<bar> \<le> 2 ^ 53 \<Longrightarrow> py_int_mul n x = Inr (fmul (fl (of_int n)) x)"
  by (simp add: py_int_mul_def int_to_float_exact fl_of_int)

subsection \<open>The inner loops as list expressions\<close>

lemma convertible_53: "\<bar>n\<bar> \<le> 2 ^ 53 \<Longrightarrow> convertible n"
  by (simp add: convertible_def fl_of_int)

lemma convertible_range:
  assumes "n \<le> 2 ^ 53" and "s \<in> set (py_range n)"
  shows "convertible s"
proof -
  from assms(2) have "0 \<le> s" "s < n" by (auto simp: py_range_def)
  with assms(1) have "\<bar>s\<bar> \<le> 2 ^ 53" by simp
  then show ?thesis by (rule convertible_53)
qed

lemma int_to_float_if:
  "int_to_float n = (if convertible n then Inr (fl (of_int n)) else Inl OverflowError)"
  by (cases "fl (of_int n)") (simp_all add: int_to_float_def convertible_def)

lemma py_int_mul_if:
  "py_int_mul n x = (if convertible n then Inr (fmul (fl (of_int n)) x) else Inl OverflowError)"
  by (simp add: py_int_mul_def int_to_float_if)

lemma strand_loop_if:
  "strand_loop p bx by ss cs =
     (if \<forall>s\<in>set ss. convertible s
      then Inr (cs @ map (\<lambda>s. (fadd (fadd bx (fmul (fl (of_int s)) (d_eff p))) (radius p),
                               fadd by (radius p))) ss)
      else Inl OverflowError)"
  by (induction ss arbitrary: cs) (simp_all add: py_int_mul_if)

lemma strand_loop_turn_block:
  "strand_loop p (fadd (margin_mm p) (fmul (fl (of_int tx)) sx))
       (fadd (margin_mm p) (fmul (fl (of_int ly)) sy)) (py_range (strands_per_turn p)) cs =
     (if \<forall>s\<in>set (py_range (strands_per_turn p)). convertible s
      then Inr (cs @ turn_block p sx sy ly tx)
      else Inl OverflowError)"
  by (simp add: strand_loop_if turn_block_def center_def)

lemma turn_loop_if:
  "turn_loop p sx sy ly txs cs =
     (if txs = [] \<or> ((\<forall>tx\<in>set txs. convertible tx) \<and> convertible ly
            \<and> (\<forall>s\<in>set (py_range (strands_per_turn p)). convertible s))
      then Inr (cs @ concat (map (turn_block p sx sy ly) txs))
      else Inl OverflowError)"
proof (induction txs arbitrary: cs)
  case Nil
  then show ?case by simp
next
  case (Cons tx txs)
  show ?case
    by (cases "txs = []")
       (auto simp: py_int_mul_if strand_loop_turn_block Cons.IH Let_def)
qed

lemma turn_loop_InrD:
  "turn_loop p sx sy ly txs cs = Inr cs' \<Longrightarrow>
   cs' = cs @ concat (map (turn_block p sx sy ly) txs)"
  by (simp add: turn_loop_if split: if_splits)

lemma turn_loop_ok:
  assumes "turns_per_layer p \<le> 2 ^ 53" and "strands_per_turn p \<le> 2 ^ 53"
    and "\<bar>ly\<bar> \<le> 2 ^ 53"
  shows "turn_loop p sx sy ly (py_range (min (turns_per_layer p) r)) cs
    = Inr (cs @ layer_block p sx sy (ly, min (turns_per_layer p) r))"
proof -
  have "min (turns_per_layer p) r \<le> 2 ^ 53" using assms(1) by simp
  then have "\<forall>tx\<in>set (py_range (min (turns_per_layer p) r)). convertible tx"
    by (auto intro: convertible_range)
  moreover have "\<forall>s\<in>set (py_range (strands_per_turn p)). convertible s"
    using assms(2) by (auto intro: convertible_range)
  moreover have "convertible ly" using assms(3) by (rule convertible_53)
  ultimately show ?thesis by (simp add: turn_loop_if layer_block_def)
qed

subsection \<open>The layer loop\<close>

lemma layer_loop_Cons_Inr:
  assumes "layer_loop p sx sy (ly # lys) st = Inr st'"
  defines "n \<equiv> min (turns_per_layer p) (remaining st)"
  defines "st1 \<equiv> \<lparr>centers_global = centers_global st @ layer_block p sx sy (ly, n),
      remaining = remaining st - n, placed = placed st @ [(ly, n)], broke = False\<rparr>"
  shows "(remaining st - n \<le> 0 \<and> st' = st1\<lparr>broke := True\<rparr>)
    \<or> (\<not> remaining st - n \<le> 0 \<and> layer_loop p sx sy lys st1 = Inr st')"
proof -
  obtain cs where t: "turn_loop p sx sy ly (py_range n) (centers_global st) = Inr cs"
    using assms(1) by (auto simp: Let_def n_def split: sum.splits)
  from turn_loop_InrD[OF t] have cs: "cs = centers_global st @ layer_block p sx sy (ly, n)"
    by (simp add: layer_block_def)
  from assms(1) show ?thesis
    unfolding st1_def by (simp add: Let_def t[unfolded n_def] cs n_def split: if_splits)
qed

lemma layer_loop_blocks:
  "layer_loop p sx sy lys st = Inr st' \<Longrightarrow>
   centers_global st = concat (map (layer_block p sx sy) (placed st)) \<Longrightarrow>
   centers_global st' = concat (map (layer_block p sx sy) (placed st'))"
proof (induction lys arbitrary: st)
  case Nil
  then show ?case by simp
next
  case (Cons ly lys)
  from layer_loop_Cons_Inr[OF Cons.prems(1)] show ?case
  proof (elim disjE conjE)
    assume "st' = \<lparr>centers_global = centers_global st
          @ layer_block p sx sy (ly, min (turns_per_layer p) (remaining st)),
        remaining = remaining st - min (turns_per_layer p) (remaining st),
        placed = placed st @ [(ly, min (turns_per_layer p) (remaining st))],
        broke = False\<rparr>\<lparr>broke := True\<rparr>"
    then show ?thesis using Cons.prems(2) by simp
  next
    assume "layer_loop p sx sy lys
       \<lparr>centers_global = centers_global st
          @ layer_block p sx sy (ly, min (turns_per_layer p) (remaining st)),
        remaining = remaining st - min (turns_per_layer p) (remaining st),
        placed = placed st @ [(ly, min (turns_per_layer p) (remaining st))],
        broke = False\<rparr> = Inr st'"
    then show ?thesis by (rule Cons.IH) (simp add: Cons.prems(2))
  qed
qed

lemma layer_loop_append:
  "layer_loop p sx sy lys st = Inr st' \<Longrightarrow>
   \<exists>rest. centers_global st' = centers_global st @ rest"
proof (induction lys arbitrary: st)
  case Nil
  then show ?case by simp
next
  case (Cons ly lys)
  from layer_loop_Cons_Inr[OF Cons.prems(1)] show ?case
  proof (elim disjE conjE)
    assume "st' = \<lparr>centers_global = centers_global st
          @ layer_block p sx sy (ly, min (turns_per_layer p) (remaining st)),
        remaining = remaining st - min (turns_per_layer p) (remaining st),
        placed = placed st @ [(ly, min (turns_per_layer p) (remaining st))],
        broke = False\<rparr>\<lparr>broke := True\<rparr>"
    then show ?thesis by simp
  next
    assume "layer_loop p sx sy lys
       \<lparr>centers_global = centers_global st
          @ layer_block p sx sy (ly, min (turns_per_layer p) (remaining st)),
        remaining = remaining st - min (turns_per_layer p) (remaining st),
        placed = placed st @ [(ly, min (turns_per_layer p) (remaining st))],
        broke = False\<rparr> = Inr st'"
    from Cons.IH[OF this] show ?thesis by auto
  qed
qed



lemma layer_loop_ok:
  assumes "turns_per_layer p \<le> 2 ^ 53" and "strands_per_turn p \<le> 2 ^ 53"
  shows "(\<And>ly. ly \<in> set lys \<Longrightarrow> \<bar>ly\<bar> \<le> 2 ^ 53) \<Longrightarrow>
    \<exists>st'. layer_loop p sx sy lys st = Inr st'"
proof (induction lys arbitrary: st)
  case Nil
  then show ?case by simp
next
  case (Cons ly lys)
  have ly: "\<bar>ly\<bar> \<le> 2 ^ 53" by (rule Cons.prems) simp
  have ih: "\<exists>st'. layer_loop p sx sy lys st1 = Inr st'" for st1
    by (rule Cons.IH) (rule Cons.prems, simp)
  show ?case
    using ih by (simp add: Let_def turn_loop_ok[OF assms ly])
qed

subsection \<open>Indexing the turns\<close>

lemma turn_seq_block:
  assumes l: "turns_per_layer p = int l" and n: "n \<le> l"
  shows "concat (map (turn_seq p sx sy) [a * l..<a * l + n])
    = layer_block p sx sy (int a, int n)"
proof -
  have "[a * l..<a * l + n] = map (\<lambda>i. i + a * l) [0..<n]"
    by (simp add: map_add_upt add.commute)
  moreover have "turn_seq p sx sy (i + a * l) = turn_block p sx sy (int a) (int i)"
    if "i < n" for i
  proof -
    from that n have il: "i < l" by simp
    then have "(i + a * l) div l = a" "(i + a * l) mod l = i" by simp_all
    then have "int (i + a * l) div int l = int a" "int (i + a * l) mod int l = int i"
      by (metis zdiv_int, metis zmod_int)
    then show ?thesis by (simp only: turn_seq_def l)
  qed
  ultimately have "map (turn_seq p sx sy) [a * l..<a * l + n]
      = map (turn_block p sx sy (int a)) (py_range (int n))"
    by (simp add: py_range_def comp_def)
  then show ?thesis by (simp add: layer_block_def)
qed

lemma layer_loop_Cons_eq:
  assumes "turn_loop p sx sy ly (py_range (min (turns_per_layer p) (remaining st)))
      (centers_global st) = Inr cs"
  shows "layer_loop p sx sy (ly # lys) st =
    (if remaining st - min (turns_per_layer p) (remaining st) \<le> 0
     then Inr \<lparr>centers_global = cs,
            remaining = remaining st - min (turns_per_layer p) (remaining st),
            placed = placed st @ [(ly, min (turns_per_layer p) (remaining st))],
            broke = True\<rparr>
     else layer_loop p sx sy lys
       \<lparr>centers_global = cs,
        remaining = remaining st - min (turns_per_layer p) (remaining st),
        placed = placed st @ [(ly, min (turns_per_layer p) (remaining st))],
        broke = False\<rparr>)"
  using assms by (simp add: Let_def)

lemma layer_loop_index:
  assumes l: "turns_per_layer p = int l" "1 \<le> l"
    and L: "turns_per_layer p \<le> 2 ^ 53" and S: "strands_per_turn p \<le> 2 ^ 53"
    and b: "int b \<le> 2 ^ 53"
  shows "remaining st = int T - int (a * l) \<Longrightarrow> a * l < T \<Longrightarrow> T \<le> b * l \<Longrightarrow>
     \<exists>st'. layer_loop p sx sy (map int [a..<b]) st = Inr st'
       \<and> centers_global st'
           = centers_global st @ concat (map (turn_seq p sx sy) [a * l..<T])"
proof (induction "b - a" arbitrary: a st)
  case 0
  then have "b \<le> a" by simp
  then have "b * l \<le> a * l" by simp
  with 0 show ?case by simp
next
  case (Suc d)
  then have ab: "a < b" by simp
  then have upt: "map int [a..<b] = int a # map int [Suc a..<b]"
    by (simp add: upt_conv_Cons)
  from ab b have a53: "\<bar>int a\<bar> \<le> 2 ^ 53" by simp
  let ?n = "min (turns_per_layer p) (remaining st)"
  have turn: "turn_loop p sx sy (int a) (py_range ?n) (centers_global st)
      = Inr (centers_global st @ layer_block p sx sy (int a, ?n))"
    by (rule turn_loop_ok[OF L S a53])
  note step0 = layer_loop_Cons_eq[OF turn, of "map int [Suc a..<b]", folded upt]
  show ?case
  proof (cases "T - a * l \<le> l")
    case True
    from Suc.prems have "int (a * l) \<le> int T" by (simp only: of_nat_le_iff)
    then have rem: "remaining st = int (T - a * l)"
      using Suc.prems(1) by (simp only: of_nat_diff)
    have "min (int l) (int m) = int m" if "m \<le> l" for m using that by simp
    from this[OF True] have n: "?n = int (T - a * l)" unfolding l rem .
    with rem have le: "remaining st - ?n \<le> 0" by simp
    have "layer_block p sx sy (int a, int (T - a * l))
        = concat (map (turn_seq p sx sy) [a * l..<a * l + (T - a * l)])"
      by (rule turn_seq_block[OF l(1) True, symmetric])
    also have "a * l + (T - a * l) = T" using Suc.prems by simp
    finally have blk: "layer_block p sx sy (int a, ?n)
        = concat (map (turn_seq p sx sy) [a * l..<T])"
      by (simp only: n)
    show ?thesis
      unfolding step0 blk using le by simp
  next
    case False
    from False have "a * l + l < T" by simp
    then have "int (a * l + l) < int T" by (simp only: of_nat_less_iff)
    then have big: "int a * int l + int l < int T" by simp
    have rem: "remaining st = int T - int a * int l"
      using Suc.prems by simp
    have n: "?n = int l" unfolding l rem using big by simp
    let ?st' = "\<lparr>centers_global = centers_global st @ layer_block p sx sy (int a, int l),
               remaining = remaining st - int l,
               placed = placed st @ [(int a, int l)], broke = False\<rparr>"
    from big rem have pos: "\<not> remaining st - int l \<le> 0" by simp
    have step: "layer_loop p sx sy (map int [a..<b]) st
        = layer_loop p sx sy (map int [Suc a..<b]) ?st'"
      unfolding step0 n using pos by simp
    have d: "d = b - Suc a" using Suc.hyps by simp
    have r: "remaining ?st' = int T - int (Suc a * l)"
      using Suc.prems by (simp add: algebra_simps)
    have lt: "Suc a * l < T" using False by simp
    from Suc.hyps(1)[OF d r lt Suc.prems(3)]
    obtain st' where st': "layer_loop p sx sy (map int [Suc a..<b]) ?st' = Inr st'"
      "centers_global st'
        = centers_global ?st' @ concat (map (turn_seq p sx sy) [Suc a * l..<T])"
      by blast
    have "layer_block p sx sy (int a, int l)
        = concat (map (turn_seq p sx sy) [a * l..<a * l + l])"
      by (rule turn_seq_block[OF l(1) order_refl, symmetric])
    then have "centers_global ?st' @ concat (map (turn_seq p sx sy) [Suc a * l..<T])
        = centers_global st
          @ concat (map (turn_seq p sx sy) ([a * l..<a * l + l] @ [a * l + l..<T]))"
      by (simp add: add.commute)
    also have "[a * l..<a * l + l] @ [a * l + l..<T] = [a * l..<T]"
      using lt by (metis upt_add_eq_append le_add1 le_add_diff_inverse less_imp_le_nat
          mult_Suc add.commute)
    finally show ?thesis using step st' by simp
  qed
qed

lemma length_turn_seq: "length (turn_seq p sx sy k) = nat (strands_per_turn p)"
  by (simp add: turn_seq_def turn_block_def py_range_def)

lemma length_turn_seqs:
  "length (concat (map (turn_seq p sx sy) ks)) = length ks * nat (strands_per_turn p)"
  by (induction ks) (simp_all add: length_turn_seq)

subsection \<open>The branches of compute\<close>

lemma window_test:
  "le_f (window_width p) (Fin 0) \<or> le_f (window_height p) (Fin 0) \<longleftrightarrow> \<not> window_valid p"
proof -
  have "le_f (py_max0 x) (Fin 0) \<longleftrightarrow> \<not> lt_f (Fin 0) (py_max0 x)" for x
    using py_max0_cases[of x] by (auto simp: lt_f_def)
  then show ?thesis by (auto simp: window_valid_def window_width_def window_height_def)
qed

lemma compute_invalid:
  assumes "\<not> window_valid p"
  shows "compute p = Inr
     \<lparr>window_width_mm = window_width p, window_height_mm = window_height p,
      layers = 0, strand_centers = [], strand_radius_mm = radius p,
      fill_factor = Fin 0, adjusted_turns = 0\<rparr>"
  using assms by (simp only: compute_def window_test if_True simp_thms)

lemma compute_valid_unfold:
  assumes "window_valid p"
  shows "compute p =
    (if convertible (strands_per_turn p) then
       case layer_count p of
         Inl e \<Rightarrow> Inl e
       | Inr n \<Rightarrow>
           (case run_layers p (spacing_x p) (spacing_y p) n of
              Inl e \<Rightarrow> Inl e
            | Inr st \<Rightarrow>
                (case fill_factor_of p (in_window_count p (centers_global st)) of
                   Inl e \<Rightarrow> Inl e
                 | Inr ff \<Rightarrow>
                     Inr \<lparr>window_width_mm = window_width p,
                          window_height_mm = window_height p,
                          layers = n, strand_centers = centers_global st,
                          strand_radius_mm = radius p,
                          fill_factor = ff,
                          adjusted_turns = total_turns p\<rparr>))
     else Inl OverflowError)"
proof -
  from assms have "\<not> (le_f (window_width p) (Fin 0) \<or> le_f (window_height p) (Fin 0))"
    by (simp only: window_test simp_thms)
  then show ?thesis
    unfolding spacing_x_def spacing_y_def
    by (simp add: compute_def py_int_mul_if Let_def)
qed

lemma compute_validI:
  assumes "window_valid p" and "convertible (strands_per_turn p)"
    and "layer_count p = Inr n"
    and "run_layers p (spacing_x p) (spacing_y p) n = Inr st"
    and "fill_factor_of p (in_window_count p (centers_global st)) = Inr ff"
  shows "compute p = Inr
     \<lparr>window_width_mm = window_width p, window_height_mm = window_height p,
      layers = n, strand_centers = centers_global st, strand_radius_mm = radius p,
      fill_factor = ff, adjusted_turns = total_turns p\<rparr>"
  by (simp add: compute_valid_unfold[OF assms(1)] assms(2-))

lemma compute_validD:
  assumes "window_valid p" and "compute p = Inr r"
  shows "\<exists>n st. layer_count p = Inr n
    \<and> run_layers p (spacing_x p) (spacing_y p) n = Inr st
    \<and> fill_factor_of p (in_window_count p (centers_global st)) = Inr (fill_factor r)
    \<and> layers r = n \<and> strand_centers r = centers_global st
    \<and> window_width_mm r = window_width p \<and> window_height_mm r = window_height p
    \<and> strand_radius_mm r = radius p \<and> adjusted_turns r = total_turns p"
  using assms(2) unfolding compute_valid_unfold[OF assms(1)]
  by (auto split: if_splits sum.splits)

lemma in_window_count_eq:
  "in_window_count p cs = int (length (filter (in_window p) cs))"
  by (simp add: in_window_count_def in_window_def Let_def sum_list_triv)

lemma in_window_count_Nil [simp]: "in_window_count p [] = 0"
  by (simp add: in_window_count_def)

lemma fill_factor_of_if:
  "fill_factor_of p c =
     (if convertible c
      then (case py_pow2 (radius p) of Inl e \<Rightarrow> Inl e | Inr r2 \<Rightarrow> Inr (fill_value p c r2))
      else Inl OverflowError)"
proof -
  have "py_float_truediv x y = Inr (fdiv x y)" if "lt_f (Fin 0) y" for x y
    using that by (auto simp: py_float_truediv_def lt_f_def)
  then show ?thesis
    by (auto simp: fill_factor_of_def py_int_mul_if fill_value_def Let_def split: sum.splits)
qed

lemma layer_count_ok:
  assumes "counts_ok p"
  shows "layer_count p
    = Inr \<lceil>real_of_int (total_turns p) / real_of_int (max 1 (turns_per_layer p))\<rceil>"
proof -
  from assms have a: "\<bar>total_turns p\<bar> < 2 ^ 53" unfolding counts_ok_def by linarith
  have b: "1 \<le> max 1 (turns_per_layer p)" by simp
  from assms have "turns_per_layer p \<le> 2 ^ 53" unfolding counts_ok_def by linarith
  then have c: "max 1 (turns_per_layer p) \<le> 2 ^ 53" by (intro max.boundedI) simp_all
  from int_truediv_ceiling[OF a b c] show ?thesis
    by (auto simp: layer_count_def math_ceil_def)
qed

lemma layer_count_bounds:
  assumes "counts_ok p"
  defines "n \<equiv> \<lceil>real_of_int (total_turns p) / real_of_int (max 1 (turns_per_layer p))\<rceil>"
  shows "n \<le> max 0 (total_turns p)" and "total_turns p \<le> 0 \<Longrightarrow> n \<le> 0"
    and "0 \<le> total_turns p \<Longrightarrow> 0 \<le> n"
proof -
  let ?b = "real_of_int (max 1 (turns_per_layer p))"
  have b: "1 \<le> ?b" by simp
  have "real_of_int (total_turns p) / ?b \<le> real_of_int (max 0 (total_turns p))"
  proof (cases "0 \<le> total_turns p")
    case True
    then have "real_of_int (total_turns p) / ?b \<le> real_of_int (total_turns p) / 1"
      using b by (intro divide_left_mono) simp_all
    with True show ?thesis by simp
  next
    case False
    then have "real_of_int (total_turns p) / ?b \<le> 0"
      using b by (simp add: divide_le_0_iff)
    with False show ?thesis by simp
  qed
  then show "n \<le> max 0 (total_turns p)" unfolding n_def by (rule ceiling_le)
  show "n \<le> 0" if "total_turns p \<le> 0"
  proof -
    from that have "real_of_int (total_turns p) / ?b \<le> of_int 0"
      using b by (simp add: divide_le_0_iff)
    then show ?thesis unfolding n_def by (rule ceiling_le)
  qed
  show "0 \<le> n" if "0 \<le> total_turns p"
  proof -
    from that have "0 \<le> real_of_int (total_turns p) / ?b" by simp
    then have "- 1 < real_of_int (total_turns p) / ?b" by linarith
    then show ?thesis unfolding n_def by simp
  qed
qed

subsection \<open>Runs of the layer loop\<close>

lemma run_layers_empty:
  "n \<le> 0 \<Longrightarrow> run_layers p sx sy n
     = Inr \<lparr>centers_global = [], remaining = total_turns p, placed = [], broke = False\<rparr>"
  by (simp add: run_layers_def py_range_def)

lemma py_range_abs_le:
  assumes "n \<le> 2 ^ 53" and "ly \<in> set (py_range n)"
  shows "\<bar>ly\<bar> \<le> 2 ^ 53"
proof -
  from assms(2) have "0 \<le> ly" "ly < n" by (auto simp: py_range_def)
  with assms(1) show ?thesis by linarith
qed

lemma run_layers_ok:
  assumes "turns_per_layer p \<le> 2 ^ 53" and "strands_per_turn p \<le> 2 ^ 53" and "n \<le> 2 ^ 53"
  shows "\<exists>st. run_layers p sx sy n = Inr st
    \<and> centers_global st = concat (map (layer_block p sx sy) (placed st))"
proof -
  let ?st0 = "\<lparr>centers_global = [], remaining = total_turns p, placed = [], broke = False\<rparr>"
  have "\<exists>st'. layer_loop p sx sy (py_range n) ?st0 = Inr st'"
    by (rule layer_loop_ok[OF assms(1,2)]) (rule py_range_abs_le[OF assms(3)])
  then obtain st where st: "layer_loop p sx sy (py_range n) ?st0 = Inr st" ..
  from layer_loop_blocks[OF st] have "centers_global st = concat (map (layer_block p sx sy) (placed st))"
    by simp
  with st show ?thesis by (auto simp: run_layers_def)
qed

lemma layer_block_no_strands:
  "strands_per_turn p \<le> 0 \<Longrightarrow> concat (map (layer_block p sx sy) bs) = []"
  by (induction bs) (auto simp: layer_block_def turn_block_def py_range_def)

lemma convertible_0 [simp]: "convertible 0"
  by (simp add: convertible_def)

lemma convertible_1023:
  assumes "\<bar>n\<bar> \<le> 2 ^ 1023"
  shows "convertible n"
  using int_to_float_ok[OF assms] by (auto simp: convertible_def)

lemma fill_value_0: "fill_value p 0 (Fin r2) = Fin 0"
proof -
  have "fdiv (Fin 0) wa = Fin 0" if "lt_f (Fin 0) wa" for wa
    using that by (auto simp: lt_f_0_cases)
  then show ?thesis by (simp add: fill_value_def math_pi_def Let_def)
qed

lemma fill_factor_of_0:
  assumes "radius_ok p"
  shows "fill_factor_of p 0 = Inr (Fin 0)"
proof -
  from assms obtain r2 where "py_pow2 (radius p) = Inr (Fin r2)" by (auto simp: radius_ok_def)
  then show ?thesis by (simp add: fill_factor_of_if fill_value_0)
qed

lemma layer_loop_zero:
  fixes st :: loop_state
  assumes "turns_per_layer p = 0"
  shows "0 < remaining st \<Longrightarrow>
    layer_loop p sx sy lys st
      = Inr \<lparr>centers_global = centers_global st, remaining = remaining st,
             placed = placed st @ map (\<lambda>ly. (ly, 0)) lys,
             broke = (if lys = [] then broke st else False)\<rparr>"
proof (induction lys arbitrary: st)
  case Nil
  then show ?case by simp
next
  case (Cons ly lys)
  from Cons.prems assms have m: "min (turns_per_layer p) (remaining st) = 0" by simp
  let ?st1 = "\<lparr>centers_global = centers_global st, remaining = remaining st,
      placed = placed st @ [(ly, 0)], broke = False\<rparr>"
  have "layer_loop p sx sy (ly # lys) st = layer_loop p sx sy lys ?st1"
    using Cons.prems by (simp add: m py_range_def Let_def)
  also have "\<dots> = Inr \<lparr>centers_global = centers_global ?st1, remaining = remaining ?st1,
             placed = placed ?st1 @ map (\<lambda>ly. (ly, 0)) lys,
             broke = (if lys = [] then broke ?st1 else False)\<rparr>"
    by (rule Cons.IH) (use Cons.prems in simp)
  finally show ?case by simp
qed

lemma compute_no_centers:
  assumes "window_valid p" and "convertible (strands_per_turn p)" and "radius_ok p"
    and "layer_count p = Inr n"
    and "run_layers p (spacing_x p) (spacing_y p) n = Inr st" and "centers_global st = []"
  shows "compute p = Inr
     \<lparr>window_width_mm = window_width p, window_height_mm = window_height p,
      layers = n, strand_centers = [], strand_radius_mm = radius p,
      fill_factor = Fin 0, adjusted_turns = total_turns p\<rparr>"
proof -
  have "fill_factor_of p (in_window_count p (centers_global st)) = Inr (Fin 0)"
    by (simp add: assms(6) fill_factor_of_0[OF assms(3)])
  from compute_validI[OF assms(1,2,4,5) this] show ?thesis by (simp add: assms(6))
qed

lemma counts_okD:
  assumes "counts_ok p"
  shows "\<bar>strands_per_turn p\<bar> \<le> 2 ^ 53" and "\<bar>turns_per_layer p\<bar> \<le> 2 ^ 53"
    and "\<bar>total_turns p\<bar> < 2 ^ 53"
  using assms unfolding counts_ok_def by blast+

lemma in_window_count_le: "in_window_count p cs \<le> int (length cs)"
  by (simp add: in_window_count_eq)

lemma in_window_count_nonneg: "0 \<le> in_window_count p cs"
  by (simp add: in_window_count_eq)

lemma compute_returns:
  assumes "window_valid p" and "convertible (strands_per_turn p)"
    and "py_pow2 (radius p) = Inr r2"
    and "layer_count p = Inr n"
    and "run_layers p (spacing_x p) (spacing_y p) n = Inr st"
    and "int (length (centers_global st)) \<le> 2 ^ 1023"
  shows "compute p = Inr
     \<lparr>window_width_mm = window_width p, window_height_mm = window_height p,
      layers = n, strand_centers = centers_global st, strand_radius_mm = radius p,
      fill_factor = fill_value p (in_window_count p (centers_global st)) r2,
      adjusted_turns = total_turns p\<rparr>"
proof -
  let ?c = "in_window_count p (centers_global st)"
  have "\<bar>?c\<bar> \<le> 2 ^ 1023"
    using in_window_count_le[of p "centers_global st"]
      in_window_count_nonneg[of p "centers_global st"] assms(6) by linarith
  then have "convertible ?c" by (rule convertible_1023)
  then have "fill_factor_of p ?c = Inr (fill_value p ?c r2)"
    by (simp add: fill_factor_of_if assms(3))
  from compute_validI[OF assms(1,2,4,5) this] show ?thesis .
qed

subsection \<open>Evaluating roundings\<close>

lemma round_even_eqI:
  assumes "\<bar>y - of_int n\<bar> < 1 / 2"
  shows "round_even y = n"
proof -
  have "\<bar>real_of_int (round_even y) - of_int n\<bar> < 1"
    using round_even_error[of y] assms by linarith
  then have "\<bar>real_of_int (round_even y - n)\<bar> < 1" by simp
  then have "\<bar>round_even y - n\<bar> < 1" by linarith
  then show ?thesis by simp
qed

lemma round_even_tie:
  assumes "y = of_int n + 1 / 2" and "even n"
  shows "round_even y = n"
proof -
  have "\<lfloor>y\<rfloor> = n" unfolding assms(1) by (rule floor_unique) simp_all
  then show ?thesis using assms by (simp add: round_even_def Let_def)
qed

lemma b64_round_huge: "b64_round b64_huge = b64_huge"
proof -
  have "b64_round (of_int 1 * 2 powi 1024) = of_int 1 * 2 powi 1024"
    by (rule b64_round_dyadic) simp_all
  then show ?thesis by (simp add: b64_huge_def)
qed

lemma fl_huge: "b64_huge \<le> x \<Longrightarrow> fl x = PInf"
  using b64_round_mono[of b64_huge x] by (simp add: fl_PInf_iff b64_round_huge)

lemma fl_neg_huge: "x \<le> - b64_huge \<Longrightarrow> fl x = NInf"
  using b64_round_mono[of x "- b64_huge"]
  by (simp add: fl_NInf_iff b64_round_huge b64_round_minus)

lemma fl_tiny:
  assumes "\<bar>x\<bar> < 2 powi (- 1075)"
  shows "fl x = Fin 0"
proof -
  have half: "(2::real) powi (- 1075) = 2 powi (- 1074) / 2"
    by (simp add: power_int_minus_divide)
  have lt: "(2::real) powi (- 1075) < 2 powi (- 1022)"
    by (rule power_int_strict_increasing) simp_all
  have "\<bar>x / 2 powi (- 1074)\<bar> < 1 / 2"
  proof -
    have "\<bar>x / 2 powi (- 1074)\<bar> = \<bar>x\<bar> / 2 powi (- 1074)" by (simp add: abs_divide)
    also have "\<dots> < (2 powi (- 1074) / 2) / 2 powi (- 1074)"
      using assms unfolding half by (intro divide_strict_right_mono) simp_all
    also have "\<dots> = 1 / 2" by simp
    finally show ?thesis .
  qed
  then have "round_even (x / 2 powi (- 1074)) = 0" by (intro round_even_eqI) simp
  moreover from assms lt have "\<bar>x\<bar> < 2 powi (- 1022)" by linarith
  ultimately have "b64_round x = 0" by (simp add: b64_round_eval_small)
  then show ?thesis using fl_FinI[of x] b64_huge_pos by simp
qed

lemma fl_eval:
  assumes "2 powi k \<le> \<bar>x\<bar>" and "\<bar>x\<bar> < 2 powi (k + 1)" and "- 1022 \<le> k" and "k \<le> 1022"
    and "round_even (x / 2 powi (k - 52)) = n"
  shows "fl x = Fin (of_int n * 2 powi (k - 52))"
proof -
  have r: "b64_round x = of_int n * 2 powi (k - 52)"
    using b64_round_eval[OF assms(1-3)] assms(5) by simp
  have "(0::real) < 2 powi k" by simp
  with assms(1) have "0 < \<bar>x\<bar>" by linarith
  then have "x \<noteq> 0" by simp
  have e: "b64_exp x = k" by (rule b64_exp_eqI[OF assms(1-3)])
  have "\<bar>b64_round x\<bar> \<le> 2 powi (k + 1)"
  proof -
    have "b64_round x \<le> 2 powi (k + 1)"
      using b64_round_le_next[OF \<open>x \<noteq> 0\<close>] by (simp add: e)
    moreover have "- (2 powi (k + 1)) \<le> b64_round x"
    proof -
      have "- x \<noteq> 0" using \<open>x \<noteq> 0\<close> by simp
      from b64_round_le_next[OF this] show ?thesis by (simp add: e b64_round_minus)
    qed
    ultimately show ?thesis by linarith
  qed
  also have "(2::real) powi (k + 1) \<le> 2 powi 1023"
    using assms(4) by (intro power_int_increasing) simp_all
  also have "(2::real) powi 1023 < b64_huge"
  proof -
    have "(2::real) powi 1023 < 2 powi 1024" by (rule power_int_strict_increasing) simp_all
    then show ?thesis by (simp add: b64_huge_def)
  qed
  finally show ?thesis using fl_FinI[of x] by (simp add: r)
qed

lemma fl_numeral [simp]:
  "(numeral k :: int) \<le> 2 ^ 53 \<Longrightarrow> fl (numeral k) = Fin (numeral k)"
  using fl_of_int[of "numeral k"] by simp

lemma fl_neg_numeral [simp]:
  "(numeral k :: int) \<le> 2 ^ 53 \<Longrightarrow> fl (- numeral k) = Fin (- numeral k)"
  using fl_of_int[of "- numeral k"] by simp

lemma fl_1 [simp]: "fl 1 = Fin 1"
  using fl_of_int[of 1] by simp

lemma fl_neg_1 [simp]: "fl (- 1) = Fin (- 1)"
  using fl_of_int[of "- 1"] by simp

lemma convertible_numeral [simp]: "(numeral k :: int) \<le> 2 ^ 53 \<Longrightarrow> convertible (numeral k)"
  by (rule convertible_53) simp

lemma convertible_1 [simp]: "convertible 1"
  by (rule convertible_53) simp

subsection \<open>Counts that place nothing\<close>

lemma sample_window [simp]:
  "window_width (sample_inputs\<lparr>turns_per_layer := l, total_turns := t\<rparr>) = Fin 10"
  "window_height (sample_inputs\<lparr>turns_per_layer := l, total_turns := t\<rparr>) = Fin 20"
  "d_eff (sample_inputs\<lparr>turns_per_layer := l, total_turns := t\<rparr>) = Fin 2"
  "radius (sample_inputs\<lparr>turns_per_layer := l, total_turns := t\<rparr>) = Fin 1"
  by (simp_all add: window_width_def window_height_def radial_thickness_def d_eff_def
      radius_def sample_inputs_def fsub_def py_max0_def)

lemma sample_valid [simp]:
  "window_valid (sample_inputs\<lparr>turns_per_layer := l, total_turns := t\<rparr>)"
  by (simp add: window_valid_def)

lemma sample_radius_ok [simp]:
  "radius_ok (sample_inputs\<lparr>turns_per_layer := l, total_turns := t\<rparr>)"
  by (simp add: radius_ok_def py_pow2_def)

lemma sample_update:
  "sample_inputs\<lparr>total_turns := t\<rparr>
     = sample_inputs\<lparr>turns_per_layer := 5, total_turns := t\<rparr>"
  "sample_inputs = sample_inputs\<lparr>turns_per_layer := 5, total_turns := 180\<rparr>"
  by (simp_all add: sample_inputs_def)

lemma no_centers_general:
  assumes "strands_per_turn p \<le> 0 \<or> total_turns p \<le> 0"
    and "counts_ok p" and "radius_ok p" and v: "window_valid p"
  shows "\<exists>n. compute p = Inr
     \<lparr>window_width_mm = window_width p, window_height_mm = window_height p,
      layers = n, strand_centers = [], strand_radius_mm = radius p,
      fill_factor = Fin 0, adjusted_turns = total_turns p\<rparr>
     \<and> n = \<lceil>real_of_int (total_turns p) / real_of_int (max 1 (turns_per_layer p))\<rceil>"
proof -
  note c = counts_okD[OF assms(2)]
  let ?n = "\<lceil>real_of_int (total_turns p) / real_of_int (max 1 (turns_per_layer p))\<rceil>"
  have n: "layer_count p = Inr ?n" by (rule layer_count_ok[OF assms(2)])
  have S: "convertible (strands_per_turn p)" by (rule convertible_53[OF c(1)])
  have L53: "turns_per_layer p \<le> 2 ^ 53" and S53: "strands_per_turn p \<le> 2 ^ 53"
    using c(1,2) by linarith+
  have n53: "?n \<le> 2 ^ 53"
    using layer_count_bounds(1)[OF assms(2)] c(3) by linarith
  from run_layers_ok[OF L53 S53 n53, of "spacing_x p" "spacing_y p"]
  obtain st where st: "run_layers p (spacing_x p) (spacing_y p) ?n = Inr st"
    and cs: "centers_global st
      = concat (map (layer_block p (spacing_x p) (spacing_y p)) (placed st))"
    by blast
  have "centers_global st = []"
  proof (cases "total_turns p \<le> 0")
    case True
    then have "?n \<le> 0" by (rule layer_count_bounds(2)[OF assms(2)])
    from run_layers_empty[OF this, of p "spacing_x p" "spacing_y p"] st show ?thesis by simp
  next
    case False
    with assms(1) have "strands_per_turn p \<le> 0" by simp
    then show ?thesis unfolding cs by (rule layer_block_no_strands)
  qed
  from compute_no_centers[OF v S assms(3) n st this] show ?thesis by simp
qed

lemma sample_counts_ok:
  "\<bar>l\<bar> \<le> 2 ^ 53 \<Longrightarrow> \<bar>t\<bar> < 2 ^ 53 \<Longrightarrow>
   counts_ok (sample_inputs\<lparr>turns_per_layer := l, total_turns := t\<rparr>)"
  by (simp add: counts_ok_def sample_inputs_def)

lemma fl_int_huge:
  "fl (real_of_int (2 ^ 1024)) = PInf" "fl (real_of_int (- (2 ^ 1024))) = NInf"
proof -
  have "real_of_int (2 ^ 1024) = b64_huge" by (simp add: b64_huge_def)
  then show "fl (real_of_int (2 ^ 1024)) = PInf" by (simp only: fl_huge order_refl)
  have "real_of_int (- (2 ^ 1024)) = - b64_huge" by (simp add: b64_huge_def)
  then show "fl (real_of_int (- (2 ^ 1024))) = NInf" by (simp only: fl_neg_huge order_refl)
qed

lemma layer_count_overflow:
  assumes "max 1 (turns_per_layer p) = 1"
    and "total_turns p = 2 ^ 1024 \<or> total_turns p = - (2 ^ 1024)"
  shows "layer_count p = Inl OverflowError"
proof -
  have "fl (real_of_int (total_turns p) / real_of_int 1) = PInf
      \<or> fl (real_of_int (total_turns p) / real_of_int 1) = NInf"
    using assms(2) fl_int_huge by (auto simp only: of_int_1 div_by_1)
  then show ?thesis
    unfolding layer_count_def py_int_truediv_def assms(1) by auto
qed

lemma compute_layer_count_error:
  assumes "window_valid p" and "convertible (strands_per_turn p)"
    and "layer_count p = Inl e"
  shows "compute p = Inl e"
  by (simp add: compute_valid_unfold[OF assms(1)] assms(2,3))

lemma sample_strands [simp]: "strands_per_turn sample_inputs = 3"
  by (simp add: sample_inputs_def)

lemma fl_odd_53: "fl (real_of_int (- (2 ^ 53 + 1))) = Fin (- (2 ^ 53))"
proof -
  let ?x = "real_of_int (- (2 ^ 53 + 1))"
  have x: "?x = - (2 ^ 53 + 1)" by simp
  have p53: "(2::real) powi 53 = 2 ^ 53" "(2::real) powi (53 + 1) = 2 ^ 54"
    "(2::real) powi (53 - 52) = 2"
    by simp_all
  have a: "2 powi 53 \<le> \<bar>?x\<bar>" unfolding p53 x by simp
  have b: "\<bar>?x\<bar> < 2 powi (53 + 1)" unfolding p53 x by simp
  have "round_even (- (?x / 2 powi (53 - 52))) = 2 ^ 52"
  proof (rule round_even_tie)
    show "- (?x / 2 powi (53 - 52)) = real_of_int (2 ^ 52) + 1 / 2"
      unfolding p53 x by simp
    show "even ((2::int) ^ 52)" by simp
  qed
  then have "round_even (?x / 2 powi (53 - 52)) = - (2 ^ 52)"
    by (simp only: round_even_minus)
  from fl_eval[OF a b _ _ this] show ?thesis unfolding p53 by simp
qed

lemma layer_count_odd: "layer_count odd_negative_turns_inputs = Inr (- (2 ^ 53))"
proof -
  have "fl (real_of_int (- (2 ^ 53 + 1)) / real_of_int 1) = Fin (- (2 ^ 53))"
    using fl_odd_53 by (simp only: of_int_1 div_by_1)
  moreover have "\<lceil>- ((2::real) ^ 53)\<rceil> = - (2 ^ 53)"
    by (rule ceiling_unique) simp_all
  ultimately show ?thesis
    by (simp add: layer_count_def py_int_truediv_def odd_negative_turns_inputs_def
        math_ceil_def del: of_int_minus of_int_add of_int_power)
qed

subsection \<open>Counts that place every turn\<close>

lemma ceiling_div_bounds:
  assumes "0 \<le> t" and "1 \<le> l"
  shows "t \<le> \<lceil>real_of_int t / real_of_int l\<rceil> * l"
    and "0 \<le> \<lceil>real_of_int t / real_of_int l\<rceil>"
    and "\<lceil>real_of_int t / real_of_int l\<rceil> \<le> t"
proof -
  let ?n = "\<lceil>real_of_int t / real_of_int l\<rceil>"
  have l: "0 < real_of_int l" using assms(2) by simp
  have "real_of_int t / real_of_int l \<le> of_int ?n" by (rule le_of_int_ceiling)
  then have "real_of_int t / real_of_int l * real_of_int l \<le> of_int ?n * real_of_int l"
    using l by (intro mult_right_mono) simp_all
  moreover have "real_of_int t / real_of_int l * real_of_int l = real_of_int t"
    using l by simp
  ultimately have "real_of_int t \<le> of_int ?n * real_of_int l" by simp
  then have "real_of_int t \<le> real_of_int (?n * l)" by simp
  then show "t \<le> ?n * l" by (simp only: of_int_le_iff)
  have "0 \<le> real_of_int t / real_of_int l" using assms by simp
  then have "- 1 < real_of_int t / real_of_int l" by linarith
  then show "0 \<le> ?n" by simp
  have "real_of_int t / real_of_int l \<le> real_of_int t / 1"
    using assms by (intro divide_left_mono) simp_all
  then have "real_of_int t / real_of_int l \<le> of_int t" by simp
  then show "?n \<le> t" by (rule ceiling_le)
qed

lemma run_layers_index:
  assumes L: "1 \<le> turns_per_layer p" "turns_per_layer p \<le> 2 ^ 53"
    and S: "strands_per_turn p \<le> 2 ^ 53"
    and T: "0 \<le> total_turns p" "total_turns p < 2 ^ 53"
  defines "n \<equiv> \<lceil>real_of_int (total_turns p) / real_of_int (turns_per_layer p)\<rceil>"
  shows "\<exists>st. run_layers p sx sy n = Inr st
    \<and> centers_global st = concat (map (turn_seq p sx sy) [0..<nat (total_turns p)])"
proof (cases "total_turns p = 0")
  case True
  then have "n = 0" by (simp add: n_def)
  then show ?thesis using True by (simp add: run_layers_empty)
next
  case False
  with T(1) have pos: "0 < total_turns p" by simp
  note b = ceiling_div_bounds[OF T(1) L(1), folded n_def]
  let ?st0 = "\<lparr>centers_global = [], remaining = total_turns p, placed = [], broke = False\<rparr>"
  have l: "turns_per_layer p = int (nat (turns_per_layer p))" "1 \<le> nat (turns_per_layer p)"
    using L(1) by simp_all
  have bb: "int (nat n) \<le> 2 ^ 53" using b(2,3) T(2) by simp
  have r: "remaining ?st0 = int (nat (total_turns p)) - int (0 * nat (turns_per_layer p))"
    using T(1) by simp
  have lt: "0 * nat (turns_per_layer p) < nat (total_turns p)" using pos by simp
  have le: "nat (total_turns p) \<le> nat n * nat (turns_per_layer p)"
  proof -
    have "int (nat (total_turns p)) \<le> int (nat n * nat (turns_per_layer p))"
      using b(1,2) T(1) L(1) by simp
    then show ?thesis by (simp only: of_nat_le_iff)
  qed
  from layer_loop_index[OF l L(2) S bb r lt le, of sx sy]
  show ?thesis by (simp add: run_layers_def py_range_def)
qed

lemma two_106: "(2::int) ^ 53 * 2 ^ 53 \<le> 2 ^ 1023"
proof -
  have "(2::int) ^ 53 * 2 ^ 53 = 2 ^ (53 + 53)" by (rule power_add[symmetric])
  also have "\<dots> \<le> 2 ^ 1023" by (rule power_increasing) simp_all
  finally show ?thesis .
qed

lemma placement_general:
  assumes v: "window_valid p"
    and L: "1 \<le> turns_per_layer p" "turns_per_layer p \<le> 2 ^ 53"
    and T: "0 \<le> total_turns p" "total_turns p < 2 ^ 53"
    and S: "0 \<le> strands_per_turn p" "strands_per_turn p \<le> 2 ^ 53"
    and r2: "py_pow2 (radius p) = Inr r2"
  defines "cs \<equiv> concat (map (turn_seq p (spacing_x p) (spacing_y p)) [0..<nat (total_turns p)])"
  shows "compute p = Inr
     \<lparr>window_width_mm = window_width p, window_height_mm = window_height p,
      layers = \<lceil>real_of_int (total_turns p) / real_of_int (turns_per_layer p)\<rceil>,
      strand_centers = cs, strand_radius_mm = radius p,
      fill_factor = fill_value p (in_window_count p cs) r2,
      adjusted_turns = total_turns p\<rparr>"
    and "int (length cs) = strands_per_turn p * total_turns p"
proof -
  let ?n = "\<lceil>real_of_int (total_turns p) / real_of_int (turns_per_layer p)\<rceil>"
  have c: "counts_ok p" unfolding counts_ok_def using L T S by linarith
  have m: "max 1 (turns_per_layer p) = turns_per_layer p" using L(1) by simp
  have n: "layer_count p = Inr ?n" using layer_count_ok[OF c] by (simp only: m)
  from run_layers_index[OF L S(2) T, of "spacing_x p" "spacing_y p"]
  obtain st where st: "run_layers p (spacing_x p) (spacing_y p) ?n = Inr st"
    and cs: "centers_global st = cs"
    unfolding cs_def by blast
  show len: "int (length cs) = strands_per_turn p * total_turns p"
    using T(1) S(1) by (simp add: cs_def length_turn_seqs)
  have "strands_per_turn p * total_turns p \<le> 2 ^ 53 * 2 ^ 53"
    using S T by (intro mult_mono) simp_all
  with two_106 have "int (length (centers_global st)) \<le> 2 ^ 1023"
    unfolding cs len by (rule order_trans[rotated])
  moreover have "convertible (strands_per_turn p)"
    using S by (intro convertible_53) simp
  ultimately show "compute p = Inr
     \<lparr>window_width_mm = window_width p, window_height_mm = window_height p,
      layers = ?n, strand_centers = cs, strand_radius_mm = radius p,
      fill_factor = fill_value p (in_window_count p cs) r2,
      adjusted_turns = total_turns p\<rparr>"
    using compute_returns[OF v _ r2 n st] by (simp add: cs)
qed

lemma fl_underflow: "fl (real_of_int 1 / real_of_int (2 ^ 1100)) = Fin 0"
proof (rule fl_tiny)
  have e: "real_of_int 1 / real_of_int (2 ^ 1100) = 2 powi (- 1100)"
    by (simp add: power_int_minus_divide)
  have "\<bar>(2::real) powi (- 1100)\<bar> = 2 powi (- 1100)" by (rule abs_of_nonneg) simp
  moreover have "(2::real) powi (- 1100) < 2 powi (- 1075)"
    by (rule power_int_strict_increasing) simp_all
  ultimately show "\<bar>real_of_int 1 / real_of_int (2 ^ 1100)\<bar> < 2 powi (- 1075)"
    unfolding e by linarith
qed

lemma truediv_underflow: "py_int_truediv 1 (2 ^ 1100) = Inr (Fin 0)"
proof -
  have "(2::int) ^ 1100 \<noteq> 0" by simp
  then show ?thesis by (simp only: py_int_truediv_def fl_underflow if_False pyfloat.case)
qed

subsection \<open>A window that is not valid\<close>

lemma py_max0_fsub_le:
  assumes "le_f x y"
  shows "py_max0 (fsub x y) = Fin 0"
proof -
  have "\<not> lt_f (Fin 0) (fsub x y)"
  proof (cases x)
    case (Fin a)
    show ?thesis
    proof (cases y)
      case (Fin b)
      with \<open>x = Fin a\<close> assms have "a + - b \<le> 0" by simp
      from fl_nonpos[OF this] show ?thesis
        using \<open>x = Fin a\<close> Fin by (simp add: fsub_def lt_f_def)
    qed (use Fin assms in \<open>simp_all add: fsub_def lt_f_def\<close>)
  next
    case PInf
    with assms show ?thesis by (cases y) (simp_all add: fsub_def lt_f_def)
  next
    case NInf
    with assms show ?thesis by (cases y) (simp_all add: fsub_def lt_f_def)
  next
    case NaN
    with assms show ?thesis by simp
  qed
  then show ?thesis by (simp add: py_max0_def)
qed

lemma fdiv2_le:
  assumes "le_f d (fl z)" and "le_f (Fin 0) (fl z)"
  shows "le_f (fdiv d (Fin 2)) (fl z)"
proof (cases d)
  case (Fin a)
  show ?thesis
  proof (cases "fl z")
    case (Fin m)
    with assms \<open>d = Fin a\<close> have "a \<le> m" "0 \<le> m" by simp_all
    then have "a / 2 \<le> m" by linarith
    from fl_mono[OF this] show ?thesis
      using \<open>d = Fin a\<close> Fin fl_idem[OF Fin] by simp
  next
    case PInf
    then show ?thesis using \<open>d = Fin a\<close> by simp
  next
    case NInf
    with assms show ?thesis by simp
  next
    case NaN
    then show ?thesis by simp
  qed
next
  case PInf
  with assms show ?thesis by (cases "fl z") simp_all
next
  case NInf
  with assms show ?thesis by (cases "fl z") simp_all
next
  case NaN
  with assms show ?thesis by simp
qed

lemma window_nonneg:
  "le_f (Fin 0) (window_width p)" "le_f (Fin 0) (window_height p)"
  using py_max0_cases[of "fsub (bobbin_length_mm p) (fmul (Fin 2) (margin_mm p))"]
    py_max0_cases[of "fsub (radial_thickness p) (fmul (Fin 2) (margin_mm p))"]
  by (auto simp: window_width_def window_height_def)

lemma compute_window:
  assumes "compute p = Inr r"
  shows "window_width_mm r = window_width p" and "window_height_mm r = window_height p"
proof -
  have "window_width_mm r = window_width p \<and> window_height_mm r = window_height p"
  proof (cases "window_valid p")
    case True
    from compute_validD[OF this assms] show ?thesis by blast
  next
    case False
    from compute_invalid[OF this] assms show ?thesis by auto
  qed
  then show "window_width_mm r = window_width p" and "window_height_mm r = window_height p"
    by simp_all
qed

lemma short_width:
  assumes "bobbin_length_mm p = Fin b" and "fl b = Fin b" and "margin_mm p = Fin m"
    and "b \<le> 2 * m"
  shows "window_width p = Fin 0"
proof -
  from fl_mono[OF assms(4)] have "le_f (Fin b) (fl (2 * m))" by (simp add: assms(2))
  then show ?thesis
    unfolding window_width_def assms(1,3) by (simp add: py_max0_fsub_le)
qed

lemma short_height:
  assumes "inner_diameter_mm p = Fin i" and "outer_diameter_mm p = Fin o'"
    and "margin_mm p = Fin m" and "0 \<le> m" and "o' \<le> i + 2 * m"
  shows "window_height p = Fin 0"
proof -
  from assms(5) have "o' + - i \<le> 2 * m" by simp
  from fl_mono[OF this] have d: "le_f (fl (o' + - i)) (fl (2 * m))" .
  from assms(4) have "0 \<le> 2 * m" by simp
  from fl_nonneg[OF this] have "le_f (Fin 0) (fl (2 * m))" .
  from fdiv2_le[OF d this]
  have "le_f (fdiv (fsub (Fin o') (Fin i)) (Fin 2)) (fmul (Fin 2) (Fin m))"
    by (simp add: fsub_def)
  then show ?thesis
    unfolding window_height_def radial_thickness_def assms(1-3)
    by (rule py_max0_fsub_le)
qed

subsection \<open>The overpacked inputs\<close>

lemma fl_evalI:
  assumes "\<bar>x / 2 powi (k - 52) - of_int n\<bar> < 1 / 2"
    and "2 powi k \<le> \<bar>x\<bar>" and "\<bar>x\<bar> < 2 powi (k + 1)" and "- 1022 \<le> k" and "k \<le> 1022"
    and "r = of_int n * 2 powi (k - 52)"
  shows "fl x = Fin r"
  using fl_eval[OF assms(2-5) round_even_eqI[OF assms(1)]] assms(6) by simp

lemma fl_2pi:
  "fl (2 * (884279719003555 / 281474976710656)) = Fin (884279719003555 / 140737488355328)"
  by (rule fl_evalI[where k = 2 and n = 7074237752028440]) simp_all

lemma fl_50pi:
  "fl (884279719003555 / 140737488355328 * 25) = Fin (5526748243772219 / 35184372088832)"
  by (rule fl_evalI[where k = 7 and n = 5526748243772219]) simp_all

lemma fl_half_pi:
  "fl (5526748243772219 / 35184372088832 / 100) = Fin (884279719003555 / 562949953421312)"
  by (rule fl_evalI[where k = 0 and n = 7074237752028440]) simp_all

lemma fl_percent:
  "fl (884279719003555 / 562949953421312 * 100) = Fin (5526748243772219 / 35184372088832)"
  by (rule fl_evalI[where k = 7 and n = 5526748243772219]) simp_all

lemma overpacked_locals:
  "window_width overpacked_inputs = Fin 10" "window_height overpacked_inputs = Fin 10"
  "d_eff overpacked_inputs = Fin 10" "radius overpacked_inputs = Fin 5"
  "spacing_x overpacked_inputs = Fin 10" "spacing_y overpacked_inputs = Fin 5"
  "margin_mm overpacked_inputs = Fin 0"
  by (simp_all add: window_width_def window_height_def radial_thickness_def d_eff_def
      radius_def spacing_x_def spacing_y_def overpacked_inputs_def fsub_def py_max0_def)

lemma overpacked_counts:
  "strands_per_turn overpacked_inputs = 1" "turns_per_layer overpacked_inputs = 1"
  "total_turns overpacked_inputs = 2"
  by (simp_all add: overpacked_inputs_def)

lemma overpacked_valid: "window_valid overpacked_inputs"
  by (simp add: window_valid_def overpacked_locals)

lemma overpacked_centers:
  "concat (map (turn_seq overpacked_inputs (Fin 10) (Fin 5)) [0..<2])
     = [(Fin 5, Fin 5), (Fin 5, Fin 10)]"
proof -
  have "[0..<2] = [0, Suc 0]" by (simp add: upt_rec)
  then show ?thesis
    by (simp add: turn_seq_def turn_block_def center_def py_range_def overpacked_counts
        overpacked_locals)
qed

lemma overpacked_fill:
  "fill_value overpacked_inputs 2 (Fin 25) = Fin (5526748243772219 / 35184372088832)"
proof -
  have a: "fmul (fmul (fl (real_of_int 2)) math_pi) (Fin 25)
      = Fin (5526748243772219 / 35184372088832)"
  proof -
    have "fl (real_of_int 2) = Fin 2" by simp
    then show ?thesis by (simp only: math_pi_def fmul.simps fl_2pi fl_50pi)
  qed
  have b: "fmul (Fin 10) (Fin 10) = Fin 100" by simp
  show ?thesis
    unfolding fill_value_def overpacked_locals a b Let_def
    by (simp only: lt_f_Fin fdiv.simps fmul.simps fl_half_pi fl_percent) simp
qed

subsection \<open>The result for counts below 2 ^ 53\<close>


















lemma fl_tiny_mult [simp]:
  assumes "(numeral k :: int) \<le> 2 ^ 53"
  shows "fl (numeral k * tiny) = Fin (numeral k * tiny)"
proof -
  have "\<bar>real_of_int (numeral k) * 2 powi (- 600)\<bar> \<le> \<bar>real_of_int (numeral k)\<bar> * 1"
    unfolding abs_mult by (intro mult_left_mono) (simp_all add: power_int_minus_divide)
  also have "\<dots> \<le> 2 ^ 53"
    using assms by (simp del: of_int_numeral)
  also note b64_huge_gt_53
  finally have "\<bar>real_of_int (numeral k) * 2 powi (- 600)\<bar> < b64_huge" .
  from fl_dyadic[OF _ _ this] assms show ?thesis by (simp add: tiny_def)
qed










section \<open>Placement count\<close>

text \<open>
  C1, as amended. For a valid window, \<open>1 \<le> turns_per_layer \<le> 2 ^ 53\<close>,
  \<open>0 \<le> total_turns < 2 ^ 53\<close>, \<open>1 \<le> strands_per_turn \<le> 2 ^ 53\<close> and a \<open>radius ** 2\<close>
  that is a finite \<open>float\<close>, \<open>compute\<close> returns
  \<open>layers = ceil(total_turns / turns_per_layer)\<close> and exactly
  \<open>strands_per_turn * total_turns\<close> strand centers; for 180 turns, 5 turns per layer and
  3 strands per turn these are 540 centers and 36 layers.
\<close>

theorem placement_count:
  assumes "window_valid p" and "1 \<le> turns_per_layer p" and "turns_per_layer p \<le> 2 ^ 53"
    and "0 \<le> total_turns p" and "total_turns p < 2 ^ 53"
    and "1 \<le> strands_per_turn p" and "strands_per_turn p \<le> 2 ^ 53"
    and "radius_ok p"
  shows "\<exists>r. compute p = Inr r
    \<and> layers r = \<lceil>real_of_int (total_turns p) / real_of_int (turns_per_layer p)\<rceil>
    \<and> int (length (strand_centers r)) = strands_per_turn p * total_turns p
    \<and> (total_turns p = 180 \<and> turns_per_layer p = 5 \<and> strands_per_turn p = 3
         \<longrightarrow> length (strand_centers r) = 540 \<and> layers r = 36)"
proof -
  from assms(8) obtain r2 where r2: "py_pow2 (radius p) = Inr (Fin r2)"
    by (auto simp: radius_ok_def)
  from assms(6) have S: "0 \<le> strands_per_turn p" by simp
  note g = placement_general[OF assms(1-5) S assms(7) r2]
  have "\<lceil>real_of_int (total_turns p) / real_of_int (turns_per_layer p)\<rceil> = 36"
    if "total_turns p = 180 \<and> turns_per_layer p = 5"
  proof -
    have "real_of_int (total_turns p) / real_of_int (turns_per_layer p) = real_of_int 36"
      using that by simp
    then show ?thesis by (simp only: ceiling_of_int)
  qed
  with g show ?thesis by auto
qed

theorem placement_count_witness:
  "window_valid sample_inputs \<and> 1 \<le> turns_per_layer sample_inputs
   \<and> turns_per_layer sample_inputs \<le> 2 ^ 53
   \<and> 0 \<le> total_turns sample_inputs \<and> total_turns sample_inputs < 2 ^ 53
   \<and> 1 \<le> strands_per_turn sample_inputs \<and> strands_per_turn sample_inputs \<le> 2 ^ 53
   \<and> radius_ok sample_inputs
   \<and> (\<exists>r. compute sample_inputs = Inr r \<and> length (strand_centers r) = 540 \<and> layers r = 36)"
proof -
  have v: "window_valid sample_inputs" and r: "radius_ok sample_inputs"
    by (subst sample_update(2), simp)+
  have c: "1 \<le> turns_per_layer sample_inputs" "turns_per_layer sample_inputs \<le> 2 ^ 53"
    "0 \<le> total_turns sample_inputs" "total_turns sample_inputs < 2 ^ 53"
    "1 \<le> strands_per_turn sample_inputs" "strands_per_turn sample_inputs \<le> 2 ^ 53"
    by (simp_all add: sample_inputs_def)
  have e: "total_turns sample_inputs = 180 \<and> turns_per_layer sample_inputs = 5
    \<and> strands_per_turn sample_inputs = 3"
    by (simp add: sample_inputs_def)
  from placement_count[OF v c r] v c r e show ?thesis by auto
qed

text \<open>
  C1 as stated fails beyond these bounds. With \<open>turns_per_layer = 2 ^ 1100\<close> and
  \<open>total_turns = 1\<close> (3 strands per turn, a valid window) the quotient
  \<open>total_turns / turns_per_layer\<close> underflows to \<open>0.0\<close>: \<open>compute\<close> returns \<open>layers = 0\<close>
  and no center, where the claim has \<open>ceil(1 / 2 ^ 1100) = 1\<close> layer and 3 centers.
\<close>

theorem placement_count_counterexample:
  "window_valid huge_tpl_inputs \<and> 1 \<le> turns_per_layer huge_tpl_inputs
   \<and> 0 \<le> total_turns huge_tpl_inputs \<and> 1 \<le> strands_per_turn huge_tpl_inputs
   \<and> (\<exists>r. compute huge_tpl_inputs = Inr r \<and> layers r = 0 \<and> strand_centers r = [])
   \<and> \<lceil>real_of_int (total_turns huge_tpl_inputs)
        / real_of_int (turns_per_layer huge_tpl_inputs)\<rceil> = 1
   \<and> strands_per_turn huge_tpl_inputs * total_turns huge_tpl_inputs = 3"
proof -
  let ?p = huge_tpl_inputs
  have v: "window_valid ?p" by (simp add: huge_tpl_inputs_def)
  have r: "radius_ok ?p" by (simp add: huge_tpl_inputs_def)
  have s: "convertible (strands_per_turn ?p)" by (simp add: huge_tpl_inputs_def)
  have m: "max 1 (turns_per_layer ?p) = 2 ^ 1100" "total_turns ?p = 1"
    "strands_per_turn ?p = 3" "turns_per_layer ?p = 2 ^ 1100"
    by (simp_all add: huge_tpl_inputs_def)
  have "layer_count ?p
      = (case py_int_truediv 1 (2 ^ 1100) of Inl e \<Rightarrow> Inl e | Inr q \<Rightarrow> math_ceil q)"
    by (simp only: layer_count_def m(1,2))
  also have "\<dots> = math_ceil (Fin 0)" by (simp only: truediv_underflow sum.case)
  finally have n: "layer_count ?p = Inr 0" by (simp add: math_ceil_def)
  have st: "run_layers ?p (spacing_x ?p) (spacing_y ?p) 0
     = Inr \<lparr>centers_global = [], remaining = total_turns ?p, placed = [], broke = False\<rparr>"
    by (rule run_layers_empty) simp
  have c: "\<lceil>real_of_int (total_turns ?p) / real_of_int (turns_per_layer ?p)\<rceil> = 1"
    unfolding m by (rule ceiling_unique) simp_all
  from compute_no_centers[OF v s r n st] v c show ?thesis by (simp add: m)
qed

section \<open>The fill factor\<close>




section \<open>Degenerate window\<close>

text \<open>
  C4. The window width and height are never negative, in the locals of \<open>compute\<close> and
  in every result. For finite \<open>float\<close> inputs \<open>inner_diameter = i\<close>, \<open>outer_diameter = o'\<close>,
  \<open>bobbin_length = b\<close> and \<open>margin = m\<close> with \<open>m \<ge> 0\<close> and \<open>o' \<le> i + 2 * m\<close> or
  \<open>b \<le> 2 * m\<close> (compared as real numbers), \<open>compute\<close> returns, without an error,
  the degenerate result: the corresponding window dimension is 0, \<open>layers = 0\<close>, no strand
  centers, fill factor 0 and \<open>adjusted_turns = 0\<close>.
\<close>

theorem degenerate_window:
  "le_f (Fin 0) (window_width p) \<and> le_f (Fin 0) (window_height p)
   \<and> (\<forall>r. compute p = Inr r \<longrightarrow>
         le_f (Fin 0) (window_width_mm r) \<and> le_f (Fin 0) (window_height_mm r))
   \<and> (finite_float (inner_diameter_mm p) i \<and> finite_float (outer_diameter_mm p) o'
       \<and> finite_float (bobbin_length_mm p) b \<and> finite_float (margin_mm p) m
       \<and> 0 \<le> m \<and> (o' \<le> i + 2 * m \<or> b \<le> 2 * m)
      \<longrightarrow> (\<exists>r. compute p = Inr r \<and> layers r = 0 \<and> strand_centers r = []
             \<and> fill_factor r = Fin 0 \<and> adjusted_turns r = 0
             \<and> (o' \<le> i + 2 * m \<longrightarrow> window_height_mm r = Fin 0)
             \<and> (b \<le> 2 * m \<longrightarrow> window_width_mm r = Fin 0)))"
proof (intro conjI impI allI)
  show "le_f (Fin 0) (window_width p)" "le_f (Fin 0) (window_height p)"
    by (rule window_nonneg)+
next
  fix r assume "compute p = Inr r"
  from compute_window[OF this]
  show "le_f (Fin 0) (window_width_mm r)" "le_f (Fin 0) (window_height_mm r)"
    by (simp_all add: window_nonneg)
next
  assume a: "finite_float (inner_diameter_mm p) i \<and> finite_float (outer_diameter_mm p) o'
       \<and> finite_float (bobbin_length_mm p) b \<and> finite_float (margin_mm p) m
       \<and> 0 \<le> m \<and> (o' \<le> i + 2 * m \<or> b \<le> 2 * m)"
  then have f: "inner_diameter_mm p = Fin i" "outer_diameter_mm p = Fin o'"
    "bobbin_length_mm p = Fin b" "fl b = Fin b" "margin_mm p = Fin m" "0 \<le> m"
    by (simp_all add: finite_float_def)
  have h: "window_height p = Fin 0" if "o' \<le> i + 2 * m"
    by (rule short_height[OF f(1,2,5,6) that])
  have w: "window_width p = Fin 0" if "b \<le> 2 * m"
    by (rule short_width[OF f(3,4,5) that])
  from a h w have "\<not> window_valid p" by (auto simp: window_valid_def)
  from compute_invalid[OF this] h w
  show "\<exists>r. compute p = Inr r \<and> layers r = 0 \<and> strand_centers r = []
             \<and> fill_factor r = Fin 0 \<and> adjusted_turns r = 0
             \<and> (o' \<le> i + 2 * m \<longrightarrow> window_height_mm r = Fin 0)
             \<and> (b \<le> 2 * m \<longrightarrow> window_width_mm r = Fin 0)"
    by simp
qed

theorem degenerate_window_witness:
  "finite_float (inner_diameter_mm short_bobbin_inputs) 0
   \<and> finite_float (outer_diameter_mm short_bobbin_inputs) 40
   \<and> finite_float (bobbin_length_mm short_bobbin_inputs) 1
   \<and> finite_float (margin_mm short_bobbin_inputs) 1
   \<and> (0::real) \<le> 1 \<and> (1::real) \<le> 2 * 1
   \<and> (\<exists>r. compute short_bobbin_inputs = Inr r \<and> layers r = 0 \<and> strand_centers r = []
         \<and> fill_factor r = Fin 0 \<and> adjusted_turns r = 0 \<and> window_width_mm r = Fin 0
         \<and> le_f (Fin 0) (window_height_mm r))"
proof -
  have f: "finite_float (inner_diameter_mm short_bobbin_inputs) 0
   \<and> finite_float (outer_diameter_mm short_bobbin_inputs) 40
   \<and> finite_float (bobbin_length_mm short_bobbin_inputs) 1
   \<and> finite_float (margin_mm short_bobbin_inputs) 1
   \<and> (0::real) \<le> 1 \<and> ((40::real) \<le> 0 + 2 * 1 \<or> (1::real) \<le> 2 * 1)"
    by (simp add: finite_float_def short_bobbin_inputs_def sample_inputs_def)
  from degenerate_window[of short_bobbin_inputs 0 40 1 1] f show ?thesis by auto
qed

section \<open>No clamping of the fill factor\<close>

text \<open>
  C7. The fill factor is not clamped at 100: for the overpacked inputs above, a valid
  window, \<open>compute\<close> returns the two centers \<open>(5, 5)\<close> and \<open>(5, 10)\<close> and the fill factor
  \<open>5526748243772219 / 2 ^ 45\<close>, the \<open>float\<close> \<open>157.07963267948966\<close>, which is more than 100.
\<close>

theorem fill_factor_not_clamped:
  "window_valid overpacked_inputs
   \<and> (\<exists>r. compute overpacked_inputs = Inr r
         \<and> strand_centers r = [(Fin 5, Fin 5), (Fin 5, Fin 10)]
         \<and> fill_factor r = Fin (5526748243772219 / 35184372088832)
         \<and> lt_f (Fin 100) (fill_factor r))"
proof -
  let ?p = overpacked_inputs
  have r2: "py_pow2 (radius ?p) = Inr (Fin 25)"
    by (simp add: py_pow2_def overpacked_locals)
  have g: "compute ?p = Inr
     \<lparr>window_width_mm = window_width ?p, window_height_mm = window_height ?p,
      layers = \<lceil>real_of_int (total_turns ?p) / real_of_int (turns_per_layer ?p)\<rceil>,
      strand_centers = concat (map (turn_seq ?p (spacing_x ?p) (spacing_y ?p))
        [0..<nat (total_turns ?p)]),
      strand_radius_mm = radius ?p,
      fill_factor = fill_value ?p (in_window_count ?p
        (concat (map (turn_seq ?p (spacing_x ?p) (spacing_y ?p))
          [0..<nat (total_turns ?p)]))) r2,
      adjusted_turns = total_turns ?p\<rparr>" if "r2 = Fin 25" for r2
    unfolding that
    by (rule placement_general(1)[OF overpacked_valid _ _ _ _ _ _ r2])
      (simp_all add: overpacked_counts)
  have n: "nat (total_turns ?p) = 2" by (simp add: overpacked_counts)
  have c: "in_window_count ?p [(Fin 5, Fin 5), (Fin 5, Fin 10)] = 2"
    by (simp add: in_window_count_def overpacked_locals)
  show ?thesis
    using g[OF refl] unfolding n overpacked_locals(5,6) overpacked_centers c overpacked_fill
    by (simp add: overpacked_valid)
qed

section \<open>Counts that are not positive\<close>

text \<open>
  C8, as amended. When \<open>strands_per_turn \<le> 0\<close> or \<open>total_turns \<le> 0\<close>, the three
  counts are of magnitude at most \<open>2 ^ 53\<close> (\<open>total_turns\<close> below it) and \<open>radius ** 2\<close> is
  a finite \<open>float\<close>, \<open>compute\<close> returns, without an error, a result with no strand centers
  and fill factor 0.
\<close>

theorem nonpositive_counts:
  assumes "strands_per_turn p \<le> 0 \<or> total_turns p \<le> 0"
    and "counts_ok p" and "radius_ok p"
  shows "\<exists>r. compute p = Inr r \<and> strand_centers r = [] \<and> fill_factor r = Fin 0"
proof (cases "window_valid p")
  case True
  from no_centers_general[OF assms this] show ?thesis by auto
next
  case False
  then show ?thesis by (simp add: compute_invalid)
qed

theorem nonpositive_counts_witness:
  "total_turns negative_turns_inputs \<le> 0
   \<and> counts_ok negative_turns_inputs \<and> radius_ok negative_turns_inputs
   \<and> (\<exists>r. compute negative_turns_inputs = Inr r \<and> strand_centers r = []
         \<and> fill_factor r = Fin 0)"
proof -
  have c: "counts_ok negative_turns_inputs"
    unfolding negative_turns_inputs_def sample_update(1) by (rule sample_counts_ok) simp_all
  have r: "radius_ok negative_turns_inputs"
    unfolding negative_turns_inputs_def sample_update(1) by simp
  have t: "total_turns negative_turns_inputs \<le> 0"
    by (simp add: negative_turns_inputs_def)
  from nonpositive_counts[OF disjI2 c r, OF t] c r t show ?thesis by simp
qed

text \<open>
  C8 as stated fails for a count beyond the range of \<open>float\<close>: with
  \<open>total_turns = - (2 ^ 1024)\<close> and one turn per layer (a valid window), the division
  \<open>total_turns / max(1, turns_per_layer)\<close> raises \<open>OverflowError\<close>.
\<close>

theorem nonpositive_counts_counterexample:
  "total_turns huge_negative_turns_inputs \<le> 0
   \<and> compute huge_negative_turns_inputs = Inl OverflowError"
proof -
  have "layer_count huge_negative_turns_inputs = Inl OverflowError"
    by (rule layer_count_overflow) (simp_all add: huge_negative_turns_inputs_def)
  then have "compute huge_negative_turns_inputs = Inl OverflowError"
    by (intro compute_layer_count_error) (simp_all add: huge_negative_turns_inputs_def)
  then show ?thesis by (simp add: huge_negative_turns_inputs_def)
qed

section \<open>No turns per layer\<close>

text \<open>
  C9, as amended. For a valid window, \<open>turns_per_layer = 0\<close>, \<open>1 \<le> total_turns < 2 ^ 53\<close>,
  \<open>\<bar>strands_per_turn\<bar> \<le> 2 ^ 53\<close> and a finite \<open>radius ** 2\<close>: \<open>layers\<close> is \<open>total_turns\<close>;
  the layer loop, a \<open>for\<close> loop over \<open>range(layers)\<close>, runs \<open>total_turns\<close> iterations
  with the layer indices \<open>0, 1, \<dots>\<close>, each placing zero turns; \<open>remaining\<close> stays at
  \<open>total_turns\<close>, \<open>break\<close> is not taken; and \<open>compute\<close> returns no strand centers and
  \<open>layers = total_turns\<close>.
\<close>

theorem zero_turns_per_layer:
  assumes "window_valid p" and "turns_per_layer p = 0" and "1 \<le> total_turns p"
    and "counts_ok p" and "radius_ok p"
  shows "layer_count p = Inr (total_turns p)
    \<and> (\<exists>st. run_layers p (spacing_x p) (spacing_y p) (total_turns p) = Inr st
         \<and> placed st = map (\<lambda>ly. (ly, 0)) (py_range (total_turns p))
         \<and> int (length (placed st)) = total_turns p
         \<and> remaining st = total_turns p \<and> \<not> broke st)
    \<and> (\<exists>r. compute p = Inr r \<and> strand_centers r = [] \<and> layers r = total_turns p)"
proof -
  let ?st = "\<lparr>centers_global = [], remaining = total_turns p,
      placed = map (\<lambda>ly. (ly, 0)) (py_range (total_turns p)), broke = False\<rparr>"
  have n: "layer_count p = Inr (total_turns p)"
    using layer_count_ok[OF assms(4)] assms(2) by simp
  have st: "run_layers p (spacing_x p) (spacing_y p) (total_turns p) = Inr ?st"
    unfolding run_layers_def using assms(3)
    by (subst layer_loop_zero[OF assms(2)]) simp_all
  have len: "int (length (placed ?st)) = total_turns p"
    using assms(3) by (simp add: py_range_def)
  have S: "convertible (strands_per_turn p)"
    by (rule convertible_53[OF counts_okD(1)[OF assms(4)]])
  from compute_no_centers[OF assms(1) S assms(5) n st] n st len show ?thesis by simp
qed

theorem zero_turns_per_layer_witness:
  "window_valid zero_tpl_inputs \<and> turns_per_layer zero_tpl_inputs = 0
   \<and> 1 \<le> total_turns zero_tpl_inputs
   \<and> counts_ok zero_tpl_inputs \<and> radius_ok zero_tpl_inputs
   \<and> (\<exists>st. run_layers zero_tpl_inputs (spacing_x zero_tpl_inputs)
              (spacing_y zero_tpl_inputs) 4 = Inr st
         \<and> placed st = [(0, 0), (1, 0), (2, 0), (3, 0)] \<and> \<not> broke st)
   \<and> (\<exists>r. compute zero_tpl_inputs = Inr r \<and> strand_centers r = [] \<and> layers r = 4)"
proof -
  have c: "counts_ok zero_tpl_inputs"
    unfolding zero_tpl_inputs_def by (rule sample_counts_ok) simp_all
  have r: "radius_ok zero_tpl_inputs" and v: "window_valid zero_tpl_inputs"
    unfolding zero_tpl_inputs_def by simp_all
  have t: "turns_per_layer zero_tpl_inputs = 0" "1 \<le> total_turns zero_tpl_inputs"
    "total_turns zero_tpl_inputs = 4"
    by (simp_all add: zero_tpl_inputs_def)
  have "py_range 4 = [0, 1, 2, 3]" by (simp add: py_range_def upt_rec)
  with zero_turns_per_layer[OF v t(1,2) c r] c r v t show ?thesis by auto
qed

text \<open>
  C9 as stated fails for a \<open>total_turns\<close> beyond the range of \<open>float\<close>: with
  \<open>turns_per_layer = 0\<close> and \<open>total_turns = 2 ^ 1024\<close> (a valid window),
  \<open>total_turns / max(1, turns_per_layer)\<close> raises \<open>OverflowError\<close> and no loop is run.
\<close>

theorem zero_turns_per_layer_counterexample:
  "window_valid zero_tpl_huge_turns_inputs
   \<and> turns_per_layer zero_tpl_huge_turns_inputs = 0
   \<and> 1 \<le> total_turns zero_tpl_huge_turns_inputs
   \<and> compute zero_tpl_huge_turns_inputs = Inl OverflowError"
proof -
  have "layer_count zero_tpl_huge_turns_inputs = Inl OverflowError"
    by (rule layer_count_overflow) (simp_all add: zero_tpl_huge_turns_inputs_def)
  then have "compute zero_tpl_huge_turns_inputs = Inl OverflowError"
    by (intro compute_layer_count_error) (simp_all add: zero_tpl_huge_turns_inputs_def)
  then show ?thesis by (simp add: zero_tpl_huge_turns_inputs_def)
qed

section \<open>Negative total turns\<close>

text \<open>
  C10, as amended. For a valid window, \<open>total_turns < 0\<close>, counts of magnitude at most
  \<open>2 ^ 53\<close> (\<open>total_turns\<close> below it) and a finite \<open>radius ** 2\<close>, \<open>compute\<close> returns no
  strand centers and fill factor 0, \<open>layers\<close> is
  \<open>ceil(total_turns / max(1, turns_per_layer))\<close>, which is at most 0 and is \<open>- 1\<close> for
  \<open>total_turns = - 5\<close>, \<open>turns_per_layer = 5\<close>, and \<open>adjusted_turns\<close> is the negative
  \<open>total_turns\<close>.
\<close>

theorem negative_total_turns:
  assumes "window_valid p" and "total_turns p < 0" and "counts_ok p" and "radius_ok p"
  shows "\<exists>r. compute p = Inr r \<and> strand_centers r = [] \<and> fill_factor r = Fin 0
    \<and> layers r = \<lceil>real_of_int (total_turns p) / real_of_int (max 1 (turns_per_layer p))\<rceil>
    \<and> layers r \<le> 0 \<and> adjusted_turns r = total_turns p
    \<and> (total_turns p = - 5 \<and> turns_per_layer p = 5 \<longrightarrow> layers r = - 1)"
proof -
  from assms(2) have t: "strands_per_turn p \<le> 0 \<or> total_turns p \<le> 0" by simp
  let ?n = "\<lceil>real_of_int (total_turns p) / real_of_int (max 1 (turns_per_layer p))\<rceil>"
  have le: "?n \<le> 0" using assms(2) by (intro layer_count_bounds(2)[OF assms(3)]) simp
  have "?n = - 1" if "total_turns p = - 5 \<and> turns_per_layer p = 5"
  proof -
    have "?n = \<lceil>real_of_int (- 1)\<rceil>" using that by simp
    also have "\<dots> = - 1" by (rule ceiling_of_int)
    finally show ?thesis .
  qed
  with no_centers_general[OF t assms(3,4,1)] le show ?thesis by auto
qed

theorem negative_total_turns_witness:
  "window_valid negative_turns_inputs \<and> total_turns negative_turns_inputs < 0
   \<and> counts_ok negative_turns_inputs \<and> radius_ok negative_turns_inputs
   \<and> (\<exists>r. compute negative_turns_inputs = Inr r \<and> strand_centers r = []
         \<and> fill_factor r = Fin 0 \<and> layers r = - 1 \<and> adjusted_turns r = - 5)"
proof -
  have c: "counts_ok negative_turns_inputs"
    unfolding negative_turns_inputs_def sample_update(1) by (rule sample_counts_ok) simp_all
  have r: "radius_ok negative_turns_inputs"
    unfolding negative_turns_inputs_def sample_update(1) by simp
  have v: "window_valid negative_turns_inputs"
    unfolding negative_turns_inputs_def sample_update(1) by simp
  have t: "total_turns negative_turns_inputs < 0"
    "total_turns negative_turns_inputs = - 5 \<and> turns_per_layer negative_turns_inputs = 5"
    by (simp_all add: negative_turns_inputs_def sample_inputs_def)
  from negative_total_turns[OF v t(1) c r] c r v t show ?thesis by auto
qed

text \<open>
  C10 as stated fails from \<open>2 ^ 53\<close> on, where the quotient is rounded: with
  \<open>total_turns = - (2 ^ 53 + 1)\<close> and one turn per layer, \<open>compute\<close> returns
  \<open>layers = - (2 ^ 53)\<close>, which is not \<open>ceil(total_turns / max(1, turns_per_layer))\<close>.
\<close>

theorem negative_total_turns_counterexample:
  "window_valid odd_negative_turns_inputs \<and> total_turns odd_negative_turns_inputs < 0
   \<and> (\<exists>r. compute odd_negative_turns_inputs = Inr r \<and> layers r = - (2 ^ 53))
   \<and> \<lceil>real_of_int (total_turns odd_negative_turns_inputs)
        / real_of_int (max 1 (turns_per_layer odd_negative_turns_inputs))\<rceil>
       = - (2 ^ 53) - 1"
proof -
  let ?p = odd_negative_turns_inputs
  have v: "window_valid ?p" by (simp add: odd_negative_turns_inputs_def)
  have r: "radius_ok ?p" by (simp add: odd_negative_turns_inputs_def)
  have s: "convertible (strands_per_turn ?p)" by (simp add: odd_negative_turns_inputs_def)
  have st: "run_layers ?p (spacing_x ?p) (spacing_y ?p) (- (2 ^ 53))
     = Inr \<lparr>centers_global = [], remaining = total_turns ?p, placed = [], broke = False\<rparr>"
    by (rule run_layers_empty) simp
  have t: "total_turns ?p < 0" by (simp add: odd_negative_turns_inputs_def)
  have c: "\<lceil>real_of_int (total_turns ?p) / real_of_int (max 1 (turns_per_layer ?p))\<rceil>
       = - (2 ^ 53) - 1"
    by (simp add: odd_negative_turns_inputs_def)
  from compute_no_centers[OF v s r layer_count_odd st] v t c show ?thesis by simp
qed

end
